theory Spec2Isabelle
  imports Main "HOL-Library.Multiset" "HOL-Library.Char_ord" "HOL-Library.List_Lexorder"
begin

section \<open>Values, exceptions and dictionaries\<close>

text \<open>
  The objects that flow through a pipeline of \<^verbatim>\<open>nt/database/iterator.py\<close>: the JSON-like
  content of an example (\<^verbatim>\<open>None\<close>, integers, strings, lists, dictionaries). A Python
  \<^verbatim>\<open>dict\<close> keeps its insertion order, so it is an association list; its keys are unique.
\<close>

datatype val =
    VNone
  | VInt int
  | VStr string
  | VList "val list"
  | VDict "(string \<times> val) list"

text \<open>The exceptions the module raises, by their Python class.\<close>

datatype error =
    IndexError
  | KeyError
  | TypeError
  | ValueError
  | NotImplementedError
  | AssertionError
  | RecursionError

text \<open>
  Modelled from the spec: the reserved field names of \<^verbatim>\<open>nt.database.keys\<close>, a module
  that is not among the sources (identifier, alignment, sample count, observation modality).
\<close>

definition EXAMPLE_ID :: string where "EXAMPLE_ID = ''example_id''"
definition ALIGNMENT :: string where "ALIGNMENT = ''alignment''"
definition NUM_SAMPLES :: string where "NUM_SAMPLES = ''num_samples''"
definition OBSERVATION :: string where "OBSERVATION = ''observation''"

text \<open>\<^verbatim>\<open>d[k] = v\<close>: an existing key keeps its place, a new key goes to the end.\<close>

fun dict_setitem :: "string \<Rightarrow> 'v \<Rightarrow> (string \<times> 'v) list \<Rightarrow> (string \<times> 'v) list" where
  "dict_setitem k v [] = [(k, v)]"
| "dict_setitem k v (p # ps) = (if fst p = k then (k, v) # ps else p # dict_setitem k v ps)"

text \<open>
  \<^verbatim>\<open>xs[i]\<close> on a Python list or a numpy array, for an integer \<^verbatim>\<open>i\<close>: a negative
  index counts from the end, an index out of range raises \<^verbatim>\<open>IndexError\<close>.
\<close>

definition py_index :: "'a list \<Rightarrow> int \<Rightarrow> error + 'a" where
  "py_index xs i =
     (let n = int (length xs); j = (if i < 0 then i + n else i)
      in if 0 \<le> j \<and> j < n then Inr (xs ! nat j) else Inl IndexError)"

text \<open>
  \<^verbatim>\<open>xs[a]\<close> where \<^verbatim>\<open>xs\<close> is a Python list and \<^verbatim>\<open>a\<close> a one-dimensional numpy
  array. A list takes as index an integer (an object with \<^verbatim>\<open>__index__\<close>) or a slice; a
  one-dimensional array is neither (numpy gives \<^verbatim>\<open>__index__\<close> to integer scalar arrays
  only), so \<^verbatim>\<open>list.__getitem__\<close> raises \<^verbatim>\<open>TypeError\<close> whatever the array holds.
\<close>

definition list_getitem_ndarray :: "'a list \<Rightarrow> nat list \<Rightarrow> error + 'a list" where
  "list_getitem_ndarray xs a = Inl TypeError"

section \<open>The views\<close>

text \<open>
  One constructor per class. The fields are the attributes the class stores:
  \<^item> \<^verbatim>\<open>ExamplesIterator.examples\<close>;
  \<^item> \<^verbatim>\<open>MapIterator.map_function\<close>, \<^verbatim>\<open>FilterIterator.filter_function\<close>;
  \<^item> \<^verbatim>\<open>ShuffleIterator.permutation\<close>, \<^verbatim>\<open>ReShuffleIterator.permutation\<close>;
  \<^item> \<^verbatim>\<open>SliceIterator.slice\<close>, the resolved array of upstream positions;
  \<^item> \<^verbatim>\<open>ConcatenateIterator.input_iterators\<close>, \<^verbatim>\<open>_keys\<close> (\<open>None\<close> until computed) and
    whether \<^verbatim>\<open>_chain_map\<close> has been built.
\<close>

datatype iterator =
    Examples "(string \<times> val) list"
  | Map "val \<Rightarrow> val" iterator
  | Shuffle "nat list" iterator
  | ReShuffle "nat list" iterator
  | Slice "nat list" iterator
  | Filter "val \<Rightarrow> bool" iterator
  | Concatenate "iterator list" "string list option" bool

subsection \<open>\<^verbatim>\<open>ExamplesIterator\<close>\<close>

text \<open>
  \<^verbatim>\<open>example = deepcopy(self.examples[key]); example[keys.EXAMPLE_ID] = key\<close>. In this
  value model a copy is the value itself; item assignment needs a dictionary.
\<close>

fun set_example_id :: "val \<Rightarrow> string \<Rightarrow> error + val" where
  "set_example_id (VDict d) key = Inr (VDict (dict_setitem EXAMPLE_ID (VStr key) d))"
| "set_example_id _ key = Inl TypeError"

definition Examples_copy :: "(string \<times> val) list \<Rightarrow> string \<Rightarrow> error + val" where
  "Examples_copy exs key =
     (case map_of exs key of None \<Rightarrow> Inl KeyError | Some body \<Rightarrow> set_example_id body key)"

definition Examples_keys :: "(string \<times> val) list \<Rightarrow> string list" where
  "Examples_keys exs = map fst exs"

definition Examples_getitem_str :: "(string \<times> val) list \<Rightarrow> string \<Rightarrow> error + val" where
  "Examples_getitem_str exs item =
     (if item \<in> set (Examples_keys exs) then Examples_copy exs item else Inl IndexError)"

definition Examples_getitem_int :: "(string \<times> val) list \<Rightarrow> int \<Rightarrow> error + val" where
  "Examples_getitem_int exs item =
     (case py_index (Examples_keys exs) item of
        Inl e \<Rightarrow> Inl e
      | Inr key \<Rightarrow> Examples_copy exs key)"

subsection \<open>\<^verbatim>\<open>__len__\<close>\<close>

fun len_it :: "iterator \<Rightarrow> error + nat"
  and len_sum :: "iterator list \<Rightarrow> error + nat" where
  "len_it (Examples exs) = Inr (length exs)"
| "len_it (Map f u) = len_it u"
| "len_it (Shuffle perm u) = len_it u"
| "len_it (ReShuffle perm u) = len_it u"
| "len_it (Slice sl u) = Inr (length sl)"
| "len_it (Filter p u) = Inl NotImplementedError"
| "len_it (Concatenate its ks cm) = len_sum its"
| "len_sum [] = Inr 0"
| "len_sum (it # its) =
     (case len_it it of
        Inl e \<Rightarrow> Inl e
      | Inr n \<Rightarrow> (case len_sum its of Inl e \<Rightarrow> Inl e | Inr m \<Rightarrow> Inr (n + m)))"

subsection \<open>\<^verbatim>\<open>__getitem__\<close> for an integer\<close>

text \<open>
  No class writes an attribute on this path. The loop of \<^verbatim>\<open>ConcatenateIterator\<close> is
  \<open>getitem_int_walk\<close>; when it runs off the end of \<^verbatim>\<open>input_iterators\<close> the method ends
  without a \<^verbatim>\<open>return\<close>, so its value is \<^verbatim>\<open>None\<close>.
\<close>

fun getitem_int :: "iterator \<Rightarrow> int \<Rightarrow> error + val"
  and getitem_int_walk :: "iterator list \<Rightarrow> int \<Rightarrow> error + val" where
  "getitem_int (Examples exs) item = Examples_getitem_int exs item"
| "getitem_int (Map f u) item =
     (case getitem_int u item of Inl e \<Rightarrow> Inl e | Inr ex \<Rightarrow> Inr (f ex))"
| "getitem_int (Shuffle perm u) item =
     (case py_index perm item of Inl e \<Rightarrow> Inl e | Inr idx \<Rightarrow> getitem_int u (int idx))"
| "getitem_int (ReShuffle perm u) item = Inl TypeError"
| "getitem_int (Slice sl u) item =
     (case py_index sl item of Inl e \<Rightarrow> Inl e | Inr idx \<Rightarrow> getitem_int u (int idx))"
| "getitem_int (Filter p u) item = Inl AssertionError"
| "getitem_int (Concatenate its ks cm) item = getitem_int_walk its item"
| "getitem_int_walk [] item = Inr VNone"
| "getitem_int_walk (it # its) item =
     (case len_it it of
        Inl e \<Rightarrow> Inl e
      | Inr n \<Rightarrow> if int n \<le> item then getitem_int_walk its (item - int n)
                else getitem_int it item)"

subsection \<open>\<^verbatim>\<open>keys\<close>\<close>

text \<open>
  \<^verbatim>\<open>ConcatenateIterator.keys\<close> writes \<^verbatim>\<open>self._keys\<close>, so \<open>keys_it\<close> returns the view
  after the call beside the result. \<open>keys_concat\<close> is the body of that method on the
  attributes it reads and writes, and \<open>keys_loop\<close> is the \<^verbatim>\<open>for\<close> loop that extends
  \<^verbatim>\<open>self._keys\<close>: it returns the exception that stopped it, if any, and the list as far
  as it got. \<^verbatim>\<open>len(set(ks))\<close> is \<open>length (remdups ks)\<close>.
\<close>

fun keys_it :: "iterator \<Rightarrow> (error + string list) \<times> iterator"
  and keys_concat :: "iterator list \<Rightarrow> string list option \<Rightarrow>
        (error + string list) \<times> iterator list \<times> string list option"
  and keys_loop :: "iterator list \<Rightarrow> string list \<Rightarrow> (error option \<times> string list) \<times> iterator list" where
  "keys_it (Examples exs) = (Inr (Examples_keys exs), Examples exs)"
| "keys_it (Map f u) = (case keys_it u of (r, u') \<Rightarrow> (r, Map f u'))"
| "keys_it (Shuffle perm u) = (case keys_it u of (r, u') \<Rightarrow> (r, Shuffle perm u'))"
| "keys_it (ReShuffle perm u) = (case keys_it u of (r, u') \<Rightarrow> (r, ReShuffle perm u'))"
| "keys_it (Slice sl u) =
     (case keys_it u of
        (Inl e, u') \<Rightarrow> (Inl e, Slice sl u')
      | (Inr ks, u') \<Rightarrow> (list_getitem_ndarray ks sl, Slice sl u'))"
| "keys_it (Filter p u) = (Inl NotImplementedError, Filter p u)"
| "keys_it (Concatenate its ck cm) =
     (case keys_concat its ck of (r, its', ck') \<Rightarrow> (r, Concatenate its' ck' cm))"
| "keys_concat its (Some ks) = (Inr ks, its, Some ks)"
| "keys_concat its None =
     (case keys_loop its [] of
        ((Some e, ks), its') \<Rightarrow> (Inl e, its', Some ks)
      | ((None, ks), its') \<Rightarrow>
          (if length ks = length (remdups ks) then Inr ks else Inl AssertionError,
           its', Some ks))"
| "keys_loop [] acc = ((None, acc), [])"
| "keys_loop (it # its) acc =
     (case keys_it it of
        (Inl e, it') \<Rightarrow> ((Some e, acc), it' # its)
      | (Inr ks, it') \<Rightarrow>
          (case keys_loop its (acc @ ks) of (r, its') \<Rightarrow> (r, it' # its')))"

subsection \<open>\<^verbatim>\<open>__getitem__\<close> for a string\<close>

text \<open>
  \<^verbatim>\<open>SliceIterator\<close> and \<^verbatim>\<open>ConcatenateIterator\<close> call \<^verbatim>\<open>self.keys()\<close> on this path,
  so the view after the call is returned here too. \<open>chain_getitem\<close> is
  \<^verbatim>\<open>ChainMap.__getitem__\<close> over \<^verbatim>\<open>input_iterators\<close>: it asks each mapping in turn and
  goes on to the next one only when the lookup raised \<^verbatim>\<open>KeyError\<close>; any other exception
  leaves the loop, and when no mapping is left it raises \<^verbatim>\<open>KeyError\<close>.
\<close>

function getitem_str :: "iterator \<Rightarrow> string \<Rightarrow> (error + val) \<times> iterator"
  and chain_getitem :: "iterator list \<Rightarrow> string \<Rightarrow> (error + val) \<times> iterator list" where
  "getitem_str (Examples exs) item = (Examples_getitem_str exs item, Examples exs)"
| "getitem_str (Map f u) item =
     (case getitem_str u item of
        (Inl e, u') \<Rightarrow> (Inl e, Map f u')
      | (Inr ex, u') \<Rightarrow> (Inr (f ex), Map f u'))"
| "getitem_str (Shuffle perm u) item =
     (case getitem_str u item of (r, u') \<Rightarrow> (r, Shuffle perm u'))"
| "getitem_str (ReShuffle perm u) item =
     (case getitem_str u item of (r, u') \<Rightarrow> (r, ReShuffle perm u'))"
| "getitem_str (Slice sl u) key =
     (case keys_it u of
        (Inl e, u') \<Rightarrow> (Inl e, Slice sl u')
      | (Inr uks, u') \<Rightarrow>
          (case list_getitem_ndarray uks sl of
             Inl e \<Rightarrow> (Inl e, Slice sl u')
           | Inr ks \<Rightarrow>
               if key \<in> set ks
               then (case getitem_str u' key of (r, u'') \<Rightarrow> (r, Slice sl u''))
               else (Inl IndexError, Slice sl u')))"
| "getitem_str (Filter p u) key =
     (case getitem_str u key of
        (Inl e, u') \<Rightarrow> (Inl e, Filter p u')
      | (Inr ex, u') \<Rightarrow> (if p ex then Inr ex else Inl IndexError, Filter p u'))"
| "getitem_str (Concatenate its ck cm) item =
     (if cm then (case chain_getitem its item of (r, its') \<Rightarrow> (r, Concatenate its' ck True))
      else (case keys_concat its ck of
              (Inl e, its', ck') \<Rightarrow> (Inl e, Concatenate its' ck' False)
            | (Inr ks, its', ck') \<Rightarrow>
                (case chain_getitem its' item of
                   (r, its'') \<Rightarrow> (r, Concatenate its'' ck' True))))"
| "chain_getitem [] key = (Inl KeyError, [])"
| "chain_getitem (it # its) key =
     (case getitem_str it key of
        (Inl KeyError, it') \<Rightarrow>
          (case chain_getitem its key of (r, its') \<Rightarrow> (r, it' # its'))
      | (r, it') \<Rightarrow> (r, it' # its))"
  by pat_completeness auto
termination
proof -
  have sz1: "keys_it u = (r1, u') \<Longrightarrow> size u' = size u"
    and sz2: "keys_concat its ck = (r2, its', ck') \<Longrightarrow> size_list size its' = size_list size its"
    and sz3: "keys_loop its2 acc = (r3, its2') \<Longrightarrow> size_list size its2' = size_list size its2"
    for u r1 u' its ck r2 its' ck' its2 acc r3 its2'
    by (induction u and its ck and its2 acc arbitrary: r1 u' and r2 its' ck' and r3 its2'
          rule: keys_it_keys_concat_keys_loop.induct)
       (auto split: prod.splits sum.splits option.splits if_splits)
  show ?thesis
    apply (relation "measure (\<lambda>x. case x of Inl (u, k) \<Rightarrow> size u | Inr (its, k) \<Rightarrow> size_list size its)")
    apply (auto dest: sz1[OF sym] sz2[OF sym])
    done
qed


subsection \<open>\<^verbatim>\<open>__iter__\<close>\<close>

text \<open>
  The state of numpy's global random generator is the sequence of rearrangements its next
  calls of \<^verbatim>\<open>np.random.shuffle\<close> will make; a call takes the first and leaves the rest.
\<close>

type_synonym rng = "nat \<Rightarrow> nat list \<Rightarrow> nat list"

definition np_random_shuffle :: "rng \<Rightarrow> nat list \<Rightarrow> nat list \<times> rng" where
  "np_random_shuffle g a = (g 0 a, \<lambda>n. g (Suc n))"

text \<open>
  A generator yields until an exception ends it: \<open>collect\<close> turns the outcomes of the
  successive loop bodies into the examples yielded and the exception, if any, that
  follows them.
\<close>

fun collect :: "(error + 'a) list \<Rightarrow> 'a list \<times> error option" where
  "collect [] = ([], None)"
| "collect (Inl e # rs) = ([], Some e)"
| "collect (Inr v # rs) = (case collect rs of (vs, eo) \<Rightarrow> (v # vs, eo))"

text \<open>
  \<^verbatim>\<open>ReShuffleIterator.__iter__\<close> shuffles \<^verbatim>\<open>self.permutation\<close> in place, so a pass
  returns the view and the generator state after it.
\<close>

fun iter_it :: "iterator \<Rightarrow> rng \<Rightarrow> (val list \<times> error option) \<times> iterator \<times> rng"
  and iter_chain :: "iterator list \<Rightarrow> rng \<Rightarrow> (val list \<times> error option) \<times> iterator list \<times> rng" where
  "iter_it (Examples exs) g =
     (collect (map (Examples_getitem_str exs) (Examples_keys exs)), Examples exs, g)"
| "iter_it (Map f u) g =
     (case iter_it u g of ((vs, eo), u', g') \<Rightarrow> ((map f vs, eo), Map f u', g'))"
| "iter_it (Shuffle perm u) g =
     (collect (map (\<lambda>idx. getitem_int u (int idx)) perm), Shuffle perm u, g)"
| "iter_it (ReShuffle perm u) g =
     (case np_random_shuffle g perm of
        (perm', g') \<Rightarrow>
          (collect (map (\<lambda>idx. getitem_int u (int idx)) perm'), ReShuffle perm' u, g'))"
| "iter_it (Slice sl u) g =
     (collect (map (\<lambda>idx. getitem_int u (int idx)) sl), Slice sl u, g)"
| "iter_it (Filter p u) g =
     (case iter_it u g of ((vs, eo), u', g') \<Rightarrow> ((filter p vs, eo), Filter p u', g'))"
| "iter_it (Concatenate its ck cm) g =
     (case iter_chain its g of (r, its', g') \<Rightarrow> (r, Concatenate its' ck cm, g'))"
| "iter_chain [] g = (([], None), [], g)"
| "iter_chain (it # its) g =
     (case iter_it it g of
        ((vs, Some e), it', g') \<Rightarrow> ((vs, Some e), it' # its, g')
      | ((vs, None), it', g') \<Rightarrow>
          (case iter_chain its g' of
             ((ws, eo), its', g'') \<Rightarrow> ((vs @ ws, eo), it' # its', g'')))"

subsection \<open>Construction\<close>

definition MapIterator :: "(val \<Rightarrow> val) \<Rightarrow> iterator \<Rightarrow> iterator" where
  "MapIterator map_function input_iterator = Map map_function input_iterator"

definition FilterIterator :: "(val \<Rightarrow> bool) \<Rightarrow> iterator \<Rightarrow> iterator" where
  "FilterIterator filter_function input_iterator = Filter filter_function input_iterator"

definition ConcatenateIterator :: "iterator list \<Rightarrow> iterator" where
  "ConcatenateIterator input_iterators = Concatenate input_iterators None False"

definition ShuffleIterator :: "iterator \<Rightarrow> rng \<Rightarrow> (error + iterator) \<times> rng" where
  "ShuffleIterator input_iterator g =
     (case len_it input_iterator of
        Inl e \<Rightarrow> (Inl e, g)
      | Inr n \<Rightarrow>
          (case np_random_shuffle g [0..<n] of
             (perm, g') \<Rightarrow> (Inr (Shuffle perm input_iterator), g')))"

definition ReShuffleIterator :: "iterator \<Rightarrow> error + iterator" where
  "ReShuffleIterator input_iterator =
     (case len_it input_iterator of
        Inl e \<Rightarrow> Inl e
      | Inr n \<Rightarrow> Inr (ReShuffle [0..<n] input_iterator))"

text \<open>
  The selectors of \<^verbatim>\<open>BaseIterator.__getitem__\<close>: a \<^verbatim>\<open>slice(start, stop, step)\<close>, where
  each part may be \<^verbatim>\<open>None\<close>, a list of integers, or a list of strings.
\<close>

datatype selector =
    SelSlice "int option" "int option" "int option"
  | SelInts "int list"
  | SelStrs "string list"

text \<open>
  \<^verbatim>\<open>np.arange(n)[selector]\<close>. A slice is resolved as \<^verbatim>\<open>slice.indices(n)\<close> does (a zero
  step raises \<^verbatim>\<open>ValueError\<close>); a list of integers picks each position, negative ones from
  the end, and raises \<^verbatim>\<open>IndexError\<close> out of bounds; strings are not indices.
\<close>

definition slice_indices :: "int option \<Rightarrow> int option \<Rightarrow> int option \<Rightarrow> int \<Rightarrow> error + int \<times> int \<times> int" where
  "slice_indices start stop step n =
     (let st = (case step of None \<Rightarrow> 1 | Some s \<Rightarrow> s)
      in if st = 0 then Inl ValueError
         else
           (let lower = (if st < 0 then - 1 else 0);
                upper = (if st < 0 then n - 1 else n);
                a = (case start of
                       None \<Rightarrow> (if st < 0 then upper else lower)
                     | Some x \<Rightarrow> (if x < 0 then max (x + n) lower else min x upper));
                b = (case stop of
                       None \<Rightarrow> (if st < 0 then lower else upper)
                     | Some x \<Rightarrow> (if x < 0 then max (x + n) lower else min x upper))
            in Inr (a, b, st)))"

definition py_range :: "int \<Rightarrow> int \<Rightarrow> int \<Rightarrow> nat list" where
  "py_range a b st =
     (let cnt = (if 0 < st then (b - a + st - 1) div st else (a - b - st - 1) div (- st))
      in map (\<lambda>k. nat (a + int k * st)) [0..<nat cnt])"

fun fancy_index :: "int \<Rightarrow> int list \<Rightarrow> error + nat list" where
  "fancy_index n [] = Inr []"
| "fancy_index n (i # is) =
     (let j = (if i < 0 then i + n else i)
      in if 0 \<le> j \<and> j < n
         then (case fancy_index n is of Inl e \<Rightarrow> Inl e | Inr js \<Rightarrow> Inr (nat j # js))
         else Inl IndexError)"

fun arange_getitem :: "nat \<Rightarrow> selector \<Rightarrow> error + nat list" where
  "arange_getitem n (SelSlice start stop step) =
     (case slice_indices start stop step (int n) of
        Inl e \<Rightarrow> Inl e
      | Inr (a, b, st) \<Rightarrow> Inr (py_range a b st))"
| "arange_getitem n (SelInts is) = fancy_index (int n) is"
| "arange_getitem n (SelStrs ss) = Inl IndexError"

definition SliceIterator :: "selector \<Rightarrow> iterator \<Rightarrow> error + iterator" where
  "SliceIterator sel input_iterator =
     (case len_it input_iterator of
        Inl e \<Rightarrow> Inl e
      | Inr n \<Rightarrow>
          (case arange_getitem n sel of
             Inl e \<Rightarrow> Inl e
           | Inr sl \<Rightarrow> Inr (Slice sl input_iterator)))"

text \<open>
  \<^verbatim>\<open>__getitem__\<close> for a selector: every class hands it to \<^verbatim>\<open>BaseIterator\<close> except
  \<^verbatim>\<open>FilterIterator\<close>, which asserts that its key is a string.
\<close>

fun getitem_sel :: "iterator \<Rightarrow> selector \<Rightarrow> error + iterator" where
  "getitem_sel (Filter p u) sel = Inl AssertionError"
| "getitem_sel v sel = SliceIterator sel v"

section \<open>The alignment filter\<close>

text \<open>\<^verbatim>\<open>len(x)\<close>: defined on strings, lists and dictionaries.\<close>

fun py_len :: "val \<Rightarrow> error + nat" where
  "py_len (VStr s) = Inr (length s)"
| "py_len (VList xs) = Inr (length xs)"
| "py_len (VDict d) = Inr (length d)"
| "py_len _ = Inl TypeError"

text \<open>
  \<^verbatim>\<open>(num_samples - 400 + 160) // 160\<close> and its reduction by three; \<^verbatim>\<open>//\<close> and
  \<^verbatim>\<open>np.mod\<close> round towards minus infinity, as \<open>div\<close> and \<open>mod\<close> on \<open>int\<close> do.
\<close>

definition num_frames_of :: "int \<Rightarrow> int" where
  "num_frames_of num_samples = (num_samples - 400 + 160) div 160"

definition num_frames_lfr_of :: "int \<Rightarrow> int" where
  "num_frames_lfr_of num_frames = (num_frames + (- num_frames) mod 3) div 3"

text \<open>
  The example is a dictionary. The sample count is an integer, or a dictionary that holds
  one under \<^verbatim>\<open>keys.OBSERVATION\<close>; arithmetic on anything else raises \<^verbatim>\<open>TypeError\<close>.
\<close>

definition remove_examples_without_alignment :: "(string \<times> val) list \<Rightarrow> error + bool" where
  "remove_examples_without_alignment example =
     (case map_of example ALIGNMENT of
        None \<Rightarrow> Inr False
      | Some ali \<Rightarrow>
          (case py_len ali of
             Inl e \<Rightarrow> Inl e
           | Inr len_ali \<Rightarrow>
               if len_ali = 0 then Inr False
               else
                 (case map_of example NUM_SAMPLES of
                    None \<Rightarrow> Inr True
                  | Some ns \<Rightarrow>
                      (case (case ns of
                               VDict d \<Rightarrow>
                                 (case map_of d OBSERVATION of
                                    None \<Rightarrow> Inl KeyError
                                  | Some x \<Rightarrow> Inr x)
                             | x \<Rightarrow> Inr x) of
                         Inl e \<Rightarrow> Inl e
                       | Inr (VInt num_samples) \<Rightarrow>
                           (let num_frames = num_frames_of num_samples;
                                num_frames_lfr = num_frames_lfr_of num_frames
                            in Inr (int len_ali = num_frames \<or> int len_ali = num_frames_lfr))
                       | Inr _ \<Rightarrow> Inl TypeError))))"


section \<open>Well-formed sources and two small sources\<close>

text \<open>The body of an example is a mapping.\<close>

definition is_dict :: "val \<Rightarrow> bool" where
  "is_dict v = (case v of VDict d \<Rightarrow> True | _ \<Rightarrow> False)"

text \<open>Two sources with the disjoint ids \<open>a\<close>, \<open>b\<close> and \<open>c\<close>.\<close>

definition source_A :: iterator where
  "source_A = Examples [(''a'', VDict [(''value'', VInt 1)]), (''b'', VDict [(''value'', VInt 2)])]"

definition source_B :: iterator where
  "source_B = Examples [(''c'', VDict [(''value'', VInt 3)])]"

text \<open>A predicate that keeps the example \<open>a\<close> of \<open>source_A\<close> only.\<close>

definition keep_a :: "val \<Rightarrow> bool" where
  "keep_a ex = (ex = VDict [(''value'', VInt 1), (EXAMPLE_ID, VStr ''a'')])"

text \<open>
  The key sequences of the upstream views of a concatenation, joined in order, and
  whether \<^verbatim>\<open>keys()\<close> of a view returns.
\<close>

definition keys_ok :: "iterator \<Rightarrow> bool" where
  "keys_ok u = (case fst (keys_it u) of Inr ks \<Rightarrow> True | Inl e \<Rightarrow> False)"

definition upstream_keys :: "iterator list \<Rightarrow> string list" where
  "upstream_keys its = concat (map (\<lambda>u. case fst (keys_it u) of Inr ks \<Rightarrow> ks | Inl e \<Rightarrow> []) its)"

text \<open>
  The views whose lookup by key answers exactly their keys: an Example Source with unique
  ids and mapping bodies, and the Map and Shuffle views over such a view.
\<close>

fun keyed :: "iterator \<Rightarrow> bool" where
  "keyed (Examples exs) = (distinct (map fst exs) \<and> list_all (\<lambda>(k, body). is_dict body) exs)"
| "keyed (Map f u) = keyed u"
| "keyed (Shuffle perm u) = keyed u"
| "keyed (ReShuffle perm u) = keyed u"
| "keyed (Slice sl u) = False"
| "keyed (Filter p u) = False"
| "keyed (Concatenate its ck cm) = False"

section \<open>Objects with identity: what an access shares with the source\<close>

text \<open>
  To see aliasing, lists and dictionaries live in a store: a value is \<^verbatim>\<open>None\<close>, an
  integer, a string (immutable, held directly) or the address of a list or dictionary.
  The store is the list of the objects created so far; a new object takes the next
  address.
\<close>

type_synonym addr = nat

datatype ref = RNone | RInt int | RStr string | RObj addr

datatype obj = OList "ref list" | ODict "(string \<times> ref) list"

type_synonym heap = "obj list"

type_synonym memo = "(addr \<times> addr) list"

text \<open>
  \<^verbatim>\<open>copy.deepcopy(x, memo)\<close>: an atomic value is returned as it is; a container that
  \<^verbatim>\<open>memo\<close> knows is answered from \<^verbatim>\<open>memo\<close>; otherwise an empty container is created
  and entered into \<^verbatim>\<open>memo\<close>, and then filled with the copies of the elements in order.
  The first argument is the nesting depth left before the interpreter's recursion limit;
  the result \<open>None\<close> is \<^verbatim>\<open>RecursionError\<close>. (An address beyond the store names no object;
  a store never holds one.)
\<close>

fun deepcopy :: "nat \<Rightarrow> ref \<Rightarrow> memo \<Rightarrow> heap \<Rightarrow> (ref \<times> memo \<times> heap) option"
  and deepcopy_refs :: "nat \<Rightarrow> ref list \<Rightarrow> memo \<Rightarrow> heap \<Rightarrow> (ref list \<times> memo \<times> heap) option" where
  "deepcopy 0 x memo h = None"
| "deepcopy (Suc d) (RObj a) memo h =
     (if length h \<le> a then None
      else
        (case map_of memo a of
           Some y \<Rightarrow> Some (RObj y, memo, h)
         | None \<Rightarrow>
             (case h ! a of
                OList xs \<Rightarrow>
                  (case deepcopy_refs d xs ((a, length h) # memo) (h @ [OList []]) of
                     None \<Rightarrow> None
                   | Some (ys, memo', h') \<Rightarrow>
                       Some (RObj (length h), memo', h'[length h := OList ys]))
              | ODict kvs \<Rightarrow>
                  (case deepcopy_refs d (map snd kvs) ((a, length h) # memo) (h @ [ODict []]) of
                     None \<Rightarrow> None
                   | Some (ys, memo', h') \<Rightarrow>
                       Some (RObj (length h), memo',
                             h'[length h := ODict (zip (map fst kvs) ys)])))))"
| "deepcopy (Suc d) RNone memo h = Some (RNone, memo, h)"
| "deepcopy (Suc d) (RInt i) memo h = Some (RInt i, memo, h)"
| "deepcopy (Suc d) (RStr s) memo h = Some (RStr s, memo, h)"
| "deepcopy_refs d [] memo h = Some ([], memo, h)"
| "deepcopy_refs d (x # xs) memo h =
     (case deepcopy d x memo h of
        None \<Rightarrow> None
      | Some (y, memo', h') \<Rightarrow>
          (case deepcopy_refs d xs memo' h' of
             None \<Rightarrow> None
           | Some (ys, memo'', h'') \<Rightarrow> Some (y # ys, memo'', h'')))"

text \<open>\<^verbatim>\<open>x[k] = v\<close> through a reference: only a dictionary takes a string key.\<close>

fun setitem_heap :: "ref \<Rightarrow> string \<Rightarrow> ref \<Rightarrow> heap \<Rightarrow> (error + ref) \<times> heap" where
  "setitem_heap (RObj a) k v h =
     (if length h \<le> a then (Inl TypeError, h)
      else
        (case h ! a of
           ODict kvs \<Rightarrow> (Inr (RObj a), h[a := ODict (dict_setitem k v kvs)])
         | OList xs \<Rightarrow> (Inl TypeError, h)))"
| "setitem_heap x k v h = (Inl TypeError, h)"

text \<open>
  \<^verbatim>\<open>ExamplesIterator.__getitem__\<close> for a string, on the store: \<^verbatim>\<open>self.examples\<close> maps
  each id to the reference of its body.
\<close>

definition Examples_getitem_heap ::
    "nat \<Rightarrow> (string \<times> ref) list \<Rightarrow> string \<Rightarrow> heap \<Rightarrow> (error + ref) \<times> heap" where
  "Examples_getitem_heap limit exs item h =
     (if item \<in> set (map fst exs)
      then
        (case map_of exs item of
           None \<Rightarrow> (Inl KeyError, h)
         | Some body \<Rightarrow>
             (case deepcopy limit body [] h of
                None \<Rightarrow> (Inl RecursionError, h)
              | Some (example, memo, h') \<Rightarrow> setitem_heap example EXAMPLE_ID (RStr item) h'))
      else (Inl IndexError, h))"

text \<open>
  The content behind a reference, read to a given depth (\<open>None\<close> when the content is
  deeper, or cyclic).
\<close>

fun value_of :: "nat \<Rightarrow> heap \<Rightarrow> ref \<Rightarrow> val option" where
  "value_of 0 h x = None"
| "value_of (Suc d) h RNone = Some VNone"
| "value_of (Suc d) h (RInt i) = Some (VInt i)"
| "value_of (Suc d) h (RStr s) = Some (VStr s)"
| "value_of (Suc d) h (RObj a) =
     (if length h \<le> a then None
      else
        (case h ! a of
           OList xs \<Rightarrow> map_option VList (those (map (value_of d h) xs))
         | ODict kvs \<Rightarrow>
             map_option (\<lambda>vs. VDict (zip (map fst kvs) vs))
               (those (map (value_of d h) (map snd kvs)))))"

text \<open>
  The references an object holds; a store is closed when they all name objects of the
  store, and a source is stored in it when its bodies do.
\<close>

definition refs_of :: "obj \<Rightarrow> ref list" where
  "refs_of ob = (case ob of OList xs \<Rightarrow> xs | ODict kvs \<Rightarrow> map snd kvs)"

definition ref_below :: "nat \<Rightarrow> ref \<Rightarrow> bool" where
  "ref_below n x = (case x of RObj a \<Rightarrow> a < n | _ \<Rightarrow> True)"

definition ref_within :: "nat \<Rightarrow> nat \<Rightarrow> ref \<Rightarrow> bool" where
  "ref_within n m x = (case x of RObj a \<Rightarrow> n \<le> a \<and> a < m | _ \<Rightarrow> True)"

definition heap_closed :: "heap \<Rightarrow> bool" where
  "heap_closed h = list_all (\<lambda>ob. list_all (ref_below (length h)) (refs_of ob)) h"

definition source_stored :: "(string \<times> ref) list \<Rightarrow> heap \<Rightarrow> bool" where
  "source_stored exs h = (heap_closed h \<and> list_all (\<lambda>(k, body). ref_below (length h) body) exs)"

text \<open>
  A store that holds the source \<open>{a: {value: 1, tags: [7]}}\<close>: the body is object 1, its
  list is object 0.
\<close>

definition store_A :: heap where
  "store_A = [OList [RInt 7], ODict [(''value'', RInt 1), (''tags'', RObj 0)]]"

definition examples_A :: "(string \<times> ref) list" where
  "examples_A = [(''a'', RObj 1)]"

text \<open>The store after the access for \<open>a\<close>, and after the caller overwrites a field.\<close>

definition first_A :: heap where
  "first_A = snd (Examples_getitem_heap 10 examples_A ''a'' store_A)"

definition mutated_A :: heap where
  "mutated_A = snd (setitem_heap (RObj 2) ''value'' (RInt 99) first_A)"

text \<open>
  The objects created from address \<open>n\<close> on hold only references to each other, and a
  memo of a copy in progress points at them.
\<close>

definition fresh_closed :: "nat \<Rightarrow> heap \<Rightarrow> bool" where
  "fresh_closed n h = list_all (\<lambda>ob. list_all (ref_within n (length h)) (refs_of ob)) (drop n h)"

definition memo_fresh :: "nat \<Rightarrow> nat \<Rightarrow> memo \<Rightarrow> bool" where
  "memo_fresh n m memo = list_all (\<lambda>(a, y). n \<le> y \<and> y < m) memo"

definition copy_inv :: "nat \<Rightarrow> memo \<Rightarrow> heap \<Rightarrow> bool" where
  "copy_inv n memo h = (n \<le> length h \<and> memo_fresh n (length h) memo \<and> fresh_closed n h)"

text \<open>
  Two stores that agree below address \<open>n\<close> and whose objects from \<open>n\<close> on correspond,
  those of the second lying \<open>k\<close> addresses higher: the second store has \<open>k\<close> further
  objects at \<open>n\<close>.
\<close>

definition shift_addr :: "nat \<Rightarrow> nat \<Rightarrow> addr \<Rightarrow> addr" where
  "shift_addr n k a = (if n \<le> a then a + k else a)"

definition shift_ref :: "nat \<Rightarrow> nat \<Rightarrow> ref \<Rightarrow> ref" where
  "shift_ref n k x = (case x of RObj a \<Rightarrow> RObj (shift_addr n k a) | _ \<Rightarrow> x)"

definition shift_obj :: "nat \<Rightarrow> nat \<Rightarrow> obj \<Rightarrow> obj" where
  "shift_obj n k ob =
     (case ob of
        OList xs \<Rightarrow> OList (map (shift_ref n k) xs)
      | ODict kvs \<Rightarrow> ODict (zip (map fst kvs) (map (shift_ref n k) (map snd kvs))))"

definition shift_memo :: "nat \<Rightarrow> nat \<Rightarrow> memo \<Rightarrow> memo" where
  "shift_memo n k memo = map (\<lambda>(a, y). (a, shift_addr n k y)) memo"

definition shifted :: "nat \<Rightarrow> nat \<Rightarrow> heap \<Rightarrow> heap \<Rightarrow> bool" where
  "shifted n k h1 h2 =
     (n \<le> length h1 \<and> length h2 = length h1 + k \<and> take n h2 = take n h1
      \<and> drop (n + k) h2 = map (shift_obj n k) (drop n h1))"

definition old_closed :: "nat \<Rightarrow> heap \<Rightarrow> bool" where
  "old_closed n h = list_all (\<lambda>ob. list_all (ref_below n) (refs_of ob)) (take n h)"

section \<open>The Example Source\<close>

lemma map_of_dict_setitem: "map_of (dict_setitem k v d) = (map_of d)(k \<mapsto> v)"
  by (induction d) (auto simp: fun_eq_iff)

lemma Examples_getitem_str_dict:
  assumes "map_of exs k = Some (VDict body)"
  shows "Examples_getitem_str exs k = Inr (VDict (dict_setitem EXAMPLE_ID (VStr k) body))"
proof -
  from assms have "k \<in> set (map fst exs)"
    by (metis map_of_eq_None_iff option.distinct(1) set_map)
  with assms show ?thesis
    by (simp add: Examples_getitem_str_def Examples_keys_def Examples_copy_def)
qed

text \<open>
  Claim C5. An Example Source built from a mapping with \<open>N\<close> unique ids whose bodies are
  mappings has length \<open>N\<close>; its keys are the \<open>N\<close> distinct ids in the stored order; and
  for every id \<open>k\<close> the lookup by key returns the stored body with the identifier field
  set to \<open>k\<close>: the field reads \<open>k\<close> and every other field reads as in the stored body.
\<close>

theorem Examples_source_contract:
  assumes uniq: "distinct (map fst exs)"
    and dicts: "\<forall>(k, body) \<in> set exs. is_dict body"
  shows "len_it (Examples exs) = Inr (length exs)
    \<and> keys_it (Examples exs) = (Inr (map fst exs), Examples exs)
    \<and> length (map fst exs) = length exs \<and> distinct (map fst exs)
    \<and> (\<forall>(k, body) \<in> set exs. \<exists>b d.
          body = VDict b
          \<and> getitem_str (Examples exs) k = (Inr (VDict d), Examples exs)
          \<and> map_of d EXAMPLE_ID = Some (VStr k)
          \<and> (\<forall>field. field \<noteq> EXAMPLE_ID \<longrightarrow> map_of d field = map_of b field))"
proof -
  have "\<exists>b d. body = VDict b
          \<and> getitem_str (Examples exs) k = (Inr (VDict d), Examples exs)
          \<and> map_of d EXAMPLE_ID = Some (VStr k)
          \<and> (\<forall>field. field \<noteq> EXAMPLE_ID \<longrightarrow> map_of d field = map_of b field)"
    if mem: "(k, body) \<in> set exs" for k body
  proof -
    from dicts mem obtain b where b: "body = VDict b"
      by (cases body) (auto simp: is_dict_def)
    from uniq mem have "map_of exs k = Some body" by simp
    with b have "Examples_getitem_str exs k = Inr (VDict (dict_setitem EXAMPLE_ID (VStr k) b))"
      by (simp add: Examples_getitem_str_dict)
    with b show ?thesis by (simp add: map_of_dict_setitem)
  qed
  then show ?thesis using uniq by (auto simp: Examples_keys_def)
qed

theorem Examples_source_contract_witness:
  "len_it source_A = Inr 2
    \<and> fst (keys_it source_A) = Inr [''a'', ''b'']
    \<and> fst (getitem_str source_A ''b'') =
        Inr (VDict [(''value'', VInt 2), (EXAMPLE_ID, VStr ''b'')])"
proof -
  let ?exs = "[(''a'', VDict [(''value'', VInt 1)]), (''b'', VDict [(''value'', VInt 2)])]"
  have u: "distinct (map fst ?exs)" by simp
  have d: "\<forall>(k, body) \<in> set ?exs. is_dict body" by (simp add: is_dict_def)
  from Examples_source_contract [OF u d] show ?thesis
    by (simp add: source_A_def Examples_getitem_str_def Examples_keys_def Examples_copy_def
        EXAMPLE_ID_def)
qed

section \<open>Concatenation\<close>

text \<open>
  Claim C1. The concatenation of the sources \<open>{a, b}\<close> and \<open>{c}\<close> has length 3 and the
  keys \<open>[a, b, c]\<close>, and the second source returns its example for \<open>c\<close>; but the lookup
  of \<open>c\<close> on the concatenation raises \<^verbatim>\<open>IndexError\<close>: the first source answers a key
  it does not own with \<^verbatim>\<open>IndexError\<close>, which \<^verbatim>\<open>ChainMap\<close> does not catch, so the second
  source is never asked.
\<close>

theorem Concatenate_getitem_str_second_upstream:
  "len_it (ConcatenateIterator [source_A, source_B]) = Inr 3
   \<and> fst (keys_it (ConcatenateIterator [source_A, source_B])) = Inr [''a'', ''b'', ''c'']
   \<and> fst (getitem_str source_B ''c'') = Inr (VDict [(''value'', VInt 3), (EXAMPLE_ID, VStr ''c'')])
   \<and> fst (getitem_str (ConcatenateIterator [source_A, source_B]) ''c'') = Inl IndexError"
  by (simp add: ConcatenateIterator_def source_A_def source_B_def Examples_keys_def
      Examples_getitem_str_def Examples_copy_def EXAMPLE_ID_def)

lemma getitem_int_walk_past_end:
  "len_sum its = Inr n \<Longrightarrow> int n \<le> i \<Longrightarrow> getitem_int_walk its i = Inr VNone"
proof (induction its arbitrary: n i)
  case Nil
  then show ?case by simp
next
  case (Cons it its)
  then show ?case by (auto split: sum.splits)
qed

text \<open>
  Claim C3. On the concatenation of \<open>{a, b}\<close> and \<open>{c}\<close>, of length 3, position 2 is
  found in the second source at offset 0; position 3 is past the end, and the access
  raises nothing: it returns \<^verbatim>\<open>None\<close>. (The second source alone raises \<^verbatim>\<open>IndexError\<close>
  past its end.) By \<open>getitem_int_walk_past_end\<close> this happens at every position at or past
  the total length.
\<close>

theorem Concatenate_getitem_int_past_end:
  "len_it (ConcatenateIterator [source_A, source_B]) = Inr 3
   \<and> getitem_int (ConcatenateIterator [source_A, source_B]) 2 =
       Inr (VDict [(''value'', VInt 3), (EXAMPLE_ID, VStr ''c'')])
   \<and> getitem_int (ConcatenateIterator [source_A, source_B]) 3 = Inr VNone
   \<and> getitem_int source_B 1 = Inl IndexError"
  by (simp add: ConcatenateIterator_def source_A_def source_B_def Examples_keys_def
      Examples_getitem_int_def Examples_copy_def py_index_def EXAMPLE_ID_def)

lemma keys_loop_ok:
  "\<forall>u \<in> set its. keys_ok u \<Longrightarrow>
   keys_loop its acc = ((None, acc @ upstream_keys its), map (\<lambda>u. snd (keys_it u)) its)"
proof (induction its arbitrary: acc)
  case Nil
  then show ?case by (simp add: upstream_keys_def)
next
  case (Cons u its)
  from Cons.prems obtain ks where ks: "fst (keys_it u) = Inr ks"
    by (auto simp: keys_ok_def split: sum.splits)
  from Cons.prems have "\<forall>u \<in> set its. keys_ok u" by simp
  from Cons.IH [OF this, of "acc @ ks"] ks show ?case
    by (cases "keys_it u") (simp add: upstream_keys_def)
qed

lemma len_set_eq_iff_distinct: "length ks = length (remdups ks) \<longleftrightarrow> distinct ks"
  by (metis length_remdups_eq remdups_id_iff_distinct)

text \<open>
  Claim C8. Take a freshly built Concatenate view whose upstream views all return keys.
  Construction checks nothing (\<open>ConcatenateIterator\<close> only stores its arguments), and
  length and positional access never read or write the key cache. If the joined upstream
  key sequences hold a key twice (for upstreams with unique keys: the key sets are not
  pairwise disjoint), the first \<^verbatim>\<open>keys()\<close> and the first lookup by key fail the
  uniqueness assertion. Otherwise \<^verbatim>\<open>keys()\<close> returns the upstream key sequences joined
  in order and stores them, and a view that holds stored keys returns them as they are.
\<close>

theorem Concatenate_keys_lazy_check:
  assumes ok: "\<forall>u \<in> set its. keys_ok u"
  shows "(\<not> distinct (upstream_keys its) \<longrightarrow>
          fst (keys_it (ConcatenateIterator its)) = Inl AssertionError
          \<and> (\<forall>k. fst (getitem_str (ConcatenateIterator its) k) = Inl AssertionError))
    \<and> (distinct (upstream_keys its) \<longrightarrow>
          keys_it (ConcatenateIterator its) =
            (Inr (upstream_keys its),
             Concatenate (map (\<lambda>u. snd (keys_it u)) its) (Some (upstream_keys its)) False))
    \<and> (\<forall>ks its' cm. keys_it (Concatenate its' (Some ks) cm) =
                       (Inr ks, Concatenate its' (Some ks) cm))
    \<and> (\<forall>i ck cm. getitem_int (Concatenate its ck cm) i = getitem_int_walk its i
                  \<and> len_it (Concatenate its ck cm) = len_sum its)"
  using keys_loop_ok [OF ok, of "[]"]
  by (simp add: ConcatenateIterator_def len_set_eq_iff_distinct)


theorem Concatenate_keys_lazy_check_witness:
  "fst (keys_it (ConcatenateIterator [source_A, source_B])) = Inr [''a'', ''b'', ''c'']
   \<and> fst (keys_it (snd (keys_it (ConcatenateIterator [source_A, source_B])))) = Inr [''a'', ''b'', ''c'']
   \<and> fst (keys_it (ConcatenateIterator [source_A, source_A])) = Inl AssertionError
   \<and> fst (getitem_str (ConcatenateIterator [source_A, source_A]) ''a'') = Inl AssertionError
   \<and> getitem_int (ConcatenateIterator [source_A, source_A]) 2 =
        Inr (VDict [(''value'', VInt 1), (EXAMPLE_ID, VStr ''a'')])"
proof -
  have ab: "\<forall>u \<in> set [source_A, source_B]. keys_ok u"
    by (simp add: keys_ok_def source_A_def source_B_def)
  have aa: "\<forall>u \<in> set [source_A, source_A]. keys_ok u"
    by (simp add: keys_ok_def source_A_def)
  have kab: "upstream_keys [source_A, source_B] = [''a'', ''b'', ''c'']"
    by (simp add: upstream_keys_def source_A_def source_B_def Examples_keys_def)
  have kaa: "upstream_keys [source_A, source_A] = [''a'', ''b'', ''a'', ''b'']"
    by (simp add: upstream_keys_def source_A_def Examples_keys_def)
  have pos: "getitem_int (ConcatenateIterator [source_A, source_A]) 2 =
        Inr (VDict [(''value'', VInt 1), (EXAMPLE_ID, VStr ''a'')])"
    by (simp add: ConcatenateIterator_def source_A_def Examples_keys_def
      Examples_getitem_int_def Examples_copy_def py_index_def EXAMPLE_ID_def)
  from Concatenate_keys_lazy_check [OF ab] Concatenate_keys_lazy_check [OF aa] kab kaa pos
  show ?thesis by (simp del: getitem_str.simps keys_it.simps getitem_int.simps getitem_int_walk.simps)
qed


section \<open>The alignment filter\<close>

lemma num_frames_of_floor: "num_frames_of n = (n - 240) div 160"
  by (simp add: num_frames_of_def)

text \<open>
  Claim C9. The alignment filter rejects an example with no alignment or an empty one;
  accepts an example with a non-empty alignment and no sample count; and with a sample
  count \<open>n\<close> (given directly, or per modality under the observation key) accepts exactly
  when the alignment length is \<open>floor ((n - 240) / 160)\<close> or the reduction
  \<open>(f + (- f mod 3)) / 3\<close> of that number \<open>f\<close>. An alignment of 10 entries with 1840
  samples is accepted.
\<close>

theorem remove_examples_without_alignment_spec:
  "(map_of ex ALIGNMENT = None \<longrightarrow> remove_examples_without_alignment ex = Inr False)
   \<and> (\<forall>ali. map_of ex ALIGNMENT = Some ali \<and> py_len ali = Inr 0
         \<longrightarrow> remove_examples_without_alignment ex = Inr False)
   \<and> (\<forall>ali n. map_of ex ALIGNMENT = Some ali \<and> py_len ali = Inr n \<and> 0 < n
           \<and> map_of ex NUM_SAMPLES = None
         \<longrightarrow> remove_examples_without_alignment ex = Inr True)
   \<and> (\<forall>ali n ns d. map_of ex ALIGNMENT = Some ali \<and> py_len ali = Inr n \<and> 0 < n
           \<and> (map_of ex NUM_SAMPLES = Some (VInt ns)
                \<or> map_of ex NUM_SAMPLES = Some (VDict d)
                   \<and> map_of d OBSERVATION = Some (VInt ns))
         \<longrightarrow> remove_examples_without_alignment ex =
               Inr (int n = (ns - 240) div 160
                    \<or> int n = ((ns - 240) div 160 + (- ((ns - 240) div 160)) mod 3) div 3))
   \<and> remove_examples_without_alignment
         [(ALIGNMENT, VList (replicate 10 (VInt 1))), (NUM_SAMPLES, VInt 1840)] = Inr True"
  by (auto simp: remove_examples_without_alignment_def num_frames_of_floor
      num_frames_lfr_of_def ALIGNMENT_def NUM_SAMPLES_def Let_def)

theorem remove_examples_without_alignment_spec_witness:
  "remove_examples_without_alignment
     [(ALIGNMENT, VList (replicate 5 (VInt 1))), (NUM_SAMPLES, VInt 1840)] = Inr False
   \<and> remove_examples_without_alignment
     [(ALIGNMENT, VList (replicate 4 (VInt 1))), (NUM_SAMPLES, VInt 1840)] = Inr True
   \<and> remove_examples_without_alignment
     [(ALIGNMENT, VList [VInt 1]), (''speaker'', VStr ''f01'')] = Inr True
   \<and> remove_examples_without_alignment [(ALIGNMENT, VList []), (NUM_SAMPLES, VInt 1840)] = Inr False
   \<and> remove_examples_without_alignment [(NUM_SAMPLES, VInt 1840)] = Inr False"
  using remove_examples_without_alignment_spec
          [of "[(ALIGNMENT, VList (replicate 5 (VInt 1))), (NUM_SAMPLES, VInt 1840)]"]
        remove_examples_without_alignment_spec
          [of "[(ALIGNMENT, VList (replicate 4 (VInt 1))), (NUM_SAMPLES, VInt 1840)]"]
        remove_examples_without_alignment_spec
          [of "[(ALIGNMENT, VList [VInt 1]), (''speaker'', VStr ''f01'')]"]
        remove_examples_without_alignment_spec
          [of "[(ALIGNMENT, VList []), (NUM_SAMPLES, VInt 1840)]"]
        remove_examples_without_alignment_spec
          [of "[(NUM_SAMPLES, VInt 1840)]"]
  by (simp add: ALIGNMENT_def NUM_SAMPLES_def)


section \<open>The Filter view\<close>

lemma Examples_getitem_str_absent:
  "k \<notin> set (map fst exs) \<Longrightarrow> Examples_getitem_str exs k = Inl IndexError"
  by (simp add: Examples_getitem_str_def Examples_keys_def)

lemma keyed_lookup:
  "keyed u \<Longrightarrow>
     \<exists>ks. keys_it u = (Inr ks, u)
       \<and> (\<forall>k. snd (getitem_str u k) = u
              \<and> (k \<in> set ks \<longrightarrow> (\<exists>ex. fst (getitem_str u k) = Inr ex))
              \<and> (k \<notin> set ks \<longrightarrow> fst (getitem_str u k) = Inl IndexError))"
proof (induction u rule: keyed.induct)
  case (1 exs)
  have "\<exists>ex. Examples_getitem_str exs k = Inr ex" if "k \<in> set (map fst exs)" for k
  proof -
    from that obtain body where m: "(k, body) \<in> set exs" by auto
    with 1 obtain d where "body = VDict d"
      by (cases body) (auto simp: is_dict_def list_all_iff)
    with m 1 have "map_of exs k = Some (VDict d)" by simp
    then show ?thesis by (simp add: Examples_getitem_str_dict)
  qed
  then show ?case
    by (simp add: Examples_keys_def Examples_getitem_str_absent)
next
  case (2 f u)
  then obtain ks where ks: "keys_it u = (Inr ks, u)"
    and l: "\<And>k. snd (getitem_str u k) = u"
    and i: "\<And>k. k \<in> set ks \<Longrightarrow> \<exists>ex. fst (getitem_str u k) = Inr ex"
    and o: "\<And>k. k \<notin> set ks \<Longrightarrow> fst (getitem_str u k) = Inl IndexError"
    by auto
  have "snd (getitem_str (Map f u) k) = Map f u
      \<and> (k \<in> set ks \<longrightarrow> (\<exists>ex. fst (getitem_str (Map f u) k) = Inr ex))
      \<and> (k \<notin> set ks \<longrightarrow> fst (getitem_str (Map f u) k) = Inl IndexError)" for k
    using l [of k] i [of k] o [of k]
    by (cases "getitem_str u k") (auto split: sum.splits)
  with ks show ?case by simp
next
  case (3 perm u)
  then obtain ks where ks: "keys_it u = (Inr ks, u)"
    and l: "\<And>k. snd (getitem_str u k) = u"
    and i: "\<And>k. k \<in> set ks \<Longrightarrow> \<exists>ex. fst (getitem_str u k) = Inr ex"
    and o: "\<And>k. k \<notin> set ks \<Longrightarrow> fst (getitem_str u k) = Inl IndexError"
    by auto
  have "snd (getitem_str (Shuffle perm u) k) = Shuffle perm u
      \<and> (k \<in> set ks \<longrightarrow> (\<exists>ex. fst (getitem_str (Shuffle perm u) k) = Inr ex))
      \<and> (k \<notin> set ks \<longrightarrow> fst (getitem_str (Shuffle perm u) k) = Inl IndexError)" for k
    using l [of k] i [of k] o [of k]
    by (cases "getitem_str u k") auto
  with ks show ?case by simp
next
  case (4 perm u)
  then obtain ks where ks: "keys_it u = (Inr ks, u)"
    and l: "\<And>k. snd (getitem_str u k) = u"
    and i: "\<And>k. k \<in> set ks \<Longrightarrow> \<exists>ex. fst (getitem_str u k) = Inr ex"
    and o: "\<And>k. k \<notin> set ks \<Longrightarrow> fst (getitem_str u k) = Inl IndexError"
    by auto
  have "snd (getitem_str (ReShuffle perm u) k) = ReShuffle perm u
      \<and> (k \<in> set ks \<longrightarrow> (\<exists>ex. fst (getitem_str (ReShuffle perm u) k) = Inr ex))
      \<and> (k \<notin> set ks \<longrightarrow> fst (getitem_str (ReShuffle perm u) k) = Inl IndexError)" for k
    using l [of k] i [of k] o [of k]
    by (cases "getitem_str u k") auto
  with ks show ?case by simp
qed simp_all

lemma Filter_getitem_str_fst:
  "fst (getitem_str (Filter p u) k) =
     (case fst (getitem_str u k) of
        Inl e \<Rightarrow> Inl e
      | Inr ex \<Rightarrow> if p ex then Inr ex else Inl IndexError)"
  by (cases "getitem_str u k") (auto split: sum.splits)

text \<open>
  Claim C6, as the code has it. The lookup by key on a Filter view over any upstream view
  succeeds exactly when the upstream lookup succeeds with an example on which the
  predicate holds, and then returns that example; when the upstream lookup succeeds on an
  example that fails the predicate it raises \<^verbatim>\<open>IndexError\<close> (the key-not-found
  failure); when the upstream lookup fails it fails in the same way. Over an Example
  Source with unique ids and mapping bodies, and over Map and Shuffle views of one, the
  upstream keys exist and the filtered lookup succeeds iff the key is one of them and the
  predicate holds of the upstream example, and raises \<^verbatim>\<open>IndexError\<close> otherwise. The
  length raises \<^verbatim>\<open>NotImplementedError\<close> and the access by position fails its assertion,
  for every input.
\<close>

theorem Filter_contract:
  "(\<forall>k. (\<exists>ex. fst (getitem_str (Filter p u) k) = Inr ex)
           \<longleftrightarrow> (\<exists>ex. fst (getitem_str u k) = Inr ex \<and> p ex))
   \<and> (\<forall>k ex. fst (getitem_str u k) = Inr ex \<and> p ex
           \<longrightarrow> fst (getitem_str (Filter p u) k) = Inr ex)
   \<and> (\<forall>k ex. fst (getitem_str u k) = Inr ex \<and> \<not> p ex
           \<longrightarrow> fst (getitem_str (Filter p u) k) = Inl IndexError)
   \<and> (\<forall>k e. fst (getitem_str u k) = Inl e
           \<longrightarrow> fst (getitem_str (Filter p u) k) = Inl e)
   \<and> (keyed u \<longrightarrow>
        (\<exists>ks. fst (keys_it u) = Inr ks
           \<and> (\<forall>k. (\<exists>ex. fst (getitem_str (Filter p u) k) = Inr ex)
                   \<longleftrightarrow> (k \<in> set ks \<and> (\<exists>ex. fst (getitem_str u k) = Inr ex \<and> p ex)))
           \<and> (\<forall>k. (\<exists>ex. fst (getitem_str (Filter p u) k) = Inr ex)
                   \<or> fst (getitem_str (Filter p u) k) = Inl IndexError)))
   \<and> len_it (Filter p u) = Inl NotImplementedError
   \<and> (\<forall>i. getitem_int (Filter p u) i = Inl AssertionError)"
proof -
  note a = Filter_getitem_str_fst
  have b: "(\<exists>ex. fst (getitem_str (Filter p u) k) = Inr ex)
           \<longleftrightarrow> (\<exists>ex. fst (getitem_str u k) = Inr ex \<and> p ex)" for k
    unfolding a by (auto split: sum.splits)
  have c: "\<exists>ks. fst (keys_it u) = Inr ks
           \<and> (\<forall>k. (\<exists>ex. fst (getitem_str (Filter p u) k) = Inr ex)
                   \<longleftrightarrow> (k \<in> set ks \<and> (\<exists>ex. fst (getitem_str u k) = Inr ex \<and> p ex)))
           \<and> (\<forall>k. (\<exists>ex. fst (getitem_str (Filter p u) k) = Inr ex)
                   \<or> fst (getitem_str (Filter p u) k) = Inl IndexError)"
    if "keyed u"
  proof -
    from keyed_lookup [OF that] obtain ks where ks: "keys_it u = (Inr ks, u)"
      and i: "\<And>k. k \<in> set ks \<Longrightarrow> \<exists>ex. fst (getitem_str u k) = Inr ex"
      and o: "\<And>k. k \<notin> set ks \<Longrightarrow> fst (getitem_str u k) = Inl IndexError"
      by auto
    have 1: "(\<exists>ex. fst (getitem_str (Filter p u) k) = Inr ex)
                   \<longleftrightarrow> (k \<in> set ks \<and> (\<exists>ex. fst (getitem_str u k) = Inr ex \<and> p ex))" for k
      unfolding b using o [of k] by (cases "k \<in> set ks") auto
    have 2: "(\<exists>ex. fst (getitem_str (Filter p u) k) = Inr ex)
                   \<or> fst (getitem_str (Filter p u) k) = Inl IndexError" for k
      unfolding a using i [of k] o [of k] by (cases "k \<in> set ks") (auto split: sum.splits)
    from ks 1 2 show ?thesis by auto
  qed
  have d: "fst (getitem_str u k) = Inr ex \<and> p ex
           \<longrightarrow> fst (getitem_str (Filter p u) k) = Inr ex" for k ex
    unfolding a by simp
  have e: "fst (getitem_str u k) = Inr ex \<and> \<not> p ex
           \<longrightarrow> fst (getitem_str (Filter p u) k) = Inl IndexError" for k ex
    unfolding a by simp
  have f: "fst (getitem_str u k) = Inl e
           \<longrightarrow> fst (getitem_str (Filter p u) k) = Inl e" for k e
    unfolding a by simp
  from len_it.simps(6) [of p u] getitem_int.simps(6) [of p u] b c d e f
  show ?thesis by blast
qed

theorem Filter_contract_witness:
  "keyed (Shuffle [1, 0] source_A)
   \<and> fst (keys_it (Shuffle [1, 0] source_A)) = Inr [''a'', ''b'']
   \<and> fst (getitem_str (Filter keep_a (Shuffle [1, 0] source_A)) ''a'') =
       Inr (VDict [(''value'', VInt 1), (EXAMPLE_ID, VStr ''a'')])
   \<and> fst (getitem_str (Filter keep_a (Shuffle [1, 0] source_A)) ''b'') = Inl IndexError
   \<and> fst (getitem_str (Filter keep_a (Shuffle [1, 0] source_A)) ''c'') = Inl IndexError
   \<and> len_it (Filter keep_a (Shuffle [1, 0] source_A)) = Inl NotImplementedError
   \<and> getitem_int (Filter keep_a (Shuffle [1, 0] source_A)) 0 = Inl AssertionError"
proof -
  have k: "keyed (Shuffle [1, 0] source_A)" by (simp add: source_A_def is_dict_def)
  have ua: "fst (getitem_str (Shuffle [1, 0] source_A) ''a'') =
      Inr (VDict [(''value'', VInt 1), (EXAMPLE_ID, VStr ''a'')])"
    by (simp add: source_A_def Examples_getitem_str_def Examples_keys_def Examples_copy_def
        EXAMPLE_ID_def)
  have ub: "fst (getitem_str (Shuffle [1, 0] source_A) ''b'') =
      Inr (VDict [(''value'', VInt 2), (EXAMPLE_ID, VStr ''b'')])"
    by (simp add: source_A_def Examples_getitem_str_def Examples_keys_def Examples_copy_def
        EXAMPLE_ID_def)
  have uc: "fst (getitem_str (Shuffle [1, 0] source_A) ''c'') = Inl IndexError"
    by (simp add: source_A_def Examples_getitem_str_def Examples_keys_def)
  have pa: "keep_a (VDict [(''value'', VInt 1), (EXAMPLE_ID, VStr ''a'')])"
    and pb: "\<not> keep_a (VDict [(''value'', VInt 2), (EXAMPLE_ID, VStr ''b'')])"
    by (simp_all add: keep_a_def)
  have ks: "fst (keys_it (Shuffle [1, 0] source_A)) = Inr [''a'', ''b'']"
    by (simp add: source_A_def Examples_keys_def)
  note T = Filter_contract [of keep_a "Shuffle [1, 0] source_A"]
  from T ua pa have a: "fst (getitem_str (Filter keep_a (Shuffle [1, 0] source_A)) ''a'') =
       Inr (VDict [(''value'', VInt 1), (EXAMPLE_ID, VStr ''a'')])" by blast
  from T ub pb have b: "fst (getitem_str (Filter keep_a (Shuffle [1, 0] source_A)) ''b'') = Inl IndexError"
    by blast
  from T uc have c: "fst (getitem_str (Filter keep_a (Shuffle [1, 0] source_A)) ''c'') = Inl IndexError"
    by blast
  from T have l: "len_it (Filter keep_a (Shuffle [1, 0] source_A)) = Inl NotImplementedError"
    and g: "getitem_int (Filter keep_a (Shuffle [1, 0] source_A)) 0 = Inl AssertionError"
    by blast+
  from k ks a b c l g show ?thesis by blast
qed

text \<open>
  Claim C6 as stated speaks of the keys of every upstream view. A Filter view has none:
  \<^verbatim>\<open>keys()\<close> of the filter of \<open>{a, b}\<close> raises \<^verbatim>\<open>NotImplementedError\<close>, so \<open>a\<close> is not
  among its keys, and yet the lookup of \<open>a\<close> on a second filter over it succeeds.
\<close>

theorem Filter_over_Filter_counterexample:
  "fst (keys_it (Filter keep_a source_A)) = Inl NotImplementedError
   \<and> fst (getitem_str (Filter keep_a source_A) ''a'') =
       Inr (VDict [(''value'', VInt 1), (EXAMPLE_ID, VStr ''a'')])
   \<and> keep_a (VDict [(''value'', VInt 1), (EXAMPLE_ID, VStr ''a'')])
   \<and> fst (getitem_str (Filter keep_a (Filter keep_a source_A)) ''a'') =
       Inr (VDict [(''value'', VInt 1), (EXAMPLE_ID, VStr ''a'')])"
  by (simp add: source_A_def Examples_getitem_str_def Examples_keys_def Examples_copy_def
      EXAMPLE_ID_def keep_a_def)


section \<open>Views that keep the upstream keys\<close>

text \<open>
  Claim C10. The keys of a Map view, of a static Shuffle view and of a reshuffling Shuffle
  view are what the upstream view returns, content and order (and the call leaves the
  view as the upstream call leaves the upstream). So the keys of the static shuffle of
  \<open>{a, b}\<close> with the permutation \<open>[1, 0]\<close> are \<open>[a, b]\<close> while its iteration yields
  \<open>b\<close> then \<open>a\<close>.
\<close>

theorem keys_delegate_upstream:
  "keys_it (Map f u) = (fst (keys_it u), Map f (snd (keys_it u)))
   \<and> keys_it (Shuffle perm u) = (fst (keys_it u), Shuffle perm (snd (keys_it u)))
   \<and> keys_it (ReShuffle perm u) = (fst (keys_it u), ReShuffle perm (snd (keys_it u)))
   \<and> fst (keys_it (Shuffle [1, 0] source_A)) = Inr [''a'', ''b'']
   \<and> fst (iter_it (Shuffle [1, 0] source_A) g) =
       ([VDict [(''value'', VInt 2), (EXAMPLE_ID, VStr ''b'')],
         VDict [(''value'', VInt 1), (EXAMPLE_ID, VStr ''a'')]], None)"
  by (simp add: split_beta source_A_def Examples_keys_def Examples_getitem_int_def
      Examples_copy_def py_index_def EXAMPLE_ID_def)


section \<open>The static Shuffle view\<close>

lemma py_index_nat: "i < length xs \<Longrightarrow> py_index xs (int i) = Inr (xs ! i)"
  by (simp add: py_index_def)

lemma perm_of_upt_bij:
  assumes "mset perm = mset [0..<n]"
  shows "length perm = n" and "bij_betw (\<lambda>i. perm ! i) {..<n} {..<n}"
proof -
  from assms have len: "length perm = n" by (metis length_upt mset_eq_length minus_nat.diff_0)
  from assms have d: "distinct perm" by (metis distinct_upt mset_eq_imp_distinct_iff)
  from assms have s: "set perm = {..<n}" by (metis mset_eq_setD atLeast_upt)
  show "length perm = n" by (rule len)
  from d len s show "bij_betw (\<lambda>i. perm ! i) {..<n} {..<n}"
    by (intro bij_betw_nth) auto
qed

text \<open>
  Claim C7. Let a static Shuffle view be built over an upstream view of length \<open>n\<close>,
  where \<^verbatim>\<open>np.random.shuffle\<close> rearranges its array. Its stored permutation is a
  rearrangement of \<open>[0, n)\<close>; its keys are the upstream keys (so the sorted keys agree);
  a pass over it changes neither the view nor the random generator and yields the same
  examples whatever the generator state, so a second pass repeats the first; access by
  position \<open>i < n\<close> is upstream access at the \<open>i\<close>-th entry of the permutation, a
  bijection on \<open>[0, n)\<close>; and lookup by key is the upstream lookup.
\<close>

theorem Shuffle_static_contract:
  assumes shuf: "\<forall>a. mset (g 0 a) = mset a"
    and mk: "ShuffleIterator u g = (Inr v, g')"
  shows "\<exists>perm n. v = Shuffle perm u \<and> len_it u = Inr n \<and> len_it v = Inr n
     \<and> mset perm = mset [0..<n]
     \<and> fst (keys_it v) = fst (keys_it u)
     \<and> map_sum id sort (fst (keys_it v)) = map_sum id sort (fst (keys_it u))
     \<and> (\<forall>g1. snd (iter_it v g1) = (v, g1))
     \<and> (\<forall>g1 g2. fst (iter_it v g1) = fst (iter_it v g2))
     \<and> (\<forall>g1. fst (iter_it (fst (snd (iter_it v g1))) (snd (snd (iter_it v g1)))) = fst (iter_it v g1))
     \<and> bij_betw (\<lambda>i. perm ! i) {..<n} {..<n}
     \<and> (\<forall>i<n. getitem_int v (int i) = getitem_int u (int (perm ! i)))
     \<and> (\<forall>k. getitem_str v k = (fst (getitem_str u k), Shuffle perm (snd (getitem_str u k))))"
proof -
  from mk obtain n where n: "len_it u = Inr n" and v: "v = Shuffle (g 0 [0..<n]) u"
    by (auto simp: ShuffleIterator_def np_random_shuffle_def split: sum.splits)
  let ?perm = "g 0 [0..<n]"
  from shuf have m: "mset ?perm = mset [0..<n]" by simp
  note pb = perm_of_upt_bij [OF m]
  have pos: "\<forall>i<n. getitem_int v (int i) = getitem_int u (int (?perm ! i))"
    using pb(1) by (simp add: v py_index_nat)
  have str: "\<forall>k. getitem_str v k = (fst (getitem_str u k), Shuffle ?perm (snd (getitem_str u k)))"
    by (simp add: v split_beta)
  have k: "fst (keys_it v) = fst (keys_it u)" by (simp add: v split_beta)
  have it: "\<forall>g1. iter_it v g1 = (collect (map (\<lambda>idx. getitem_int u (int idx)) ?perm), v, g1)"
    by (simp add: v)
  show ?thesis
    apply (rule exI [of _ ?perm], rule exI [of _ n])
    using n m pb(2) pos str k it by (simp add: v)
qed

theorem Shuffle_static_contract_witness:
  "(\<forall>a. mset (rev a) = mset (a :: nat list))
   \<and> ShuffleIterator source_A (\<lambda>n. rev) = (Inr (Shuffle [1, 0] source_A), \<lambda>n. rev)
   \<and> (\<exists>perm n. Shuffle [1, 0] source_A = Shuffle perm source_A \<and> len_it source_A = Inr n
        \<and> bij_betw (\<lambda>i. perm ! i) {..<n} {..<n}
        \<and> (\<forall>i<n. getitem_int (Shuffle [1, 0] source_A) (int i) = getitem_int source_A (int (perm ! i))))"
proof -
  have s: "\<forall>a. mset ((\<lambda>n. rev) (0::nat) a) = mset (a :: nat list)" by simp
  have "[0..<2] = [0, Suc 0]" by (simp add: upt_rec)
  then have mk: "ShuffleIterator source_A (\<lambda>n. rev) = (Inr (Shuffle [1, 0] source_A), \<lambda>n. rev)"
    by (simp add: ShuffleIterator_def source_A_def np_random_shuffle_def)
  from Shuffle_static_contract [OF s mk] obtain perm n where
    "Shuffle [1, 0] source_A = Shuffle perm source_A" "len_it source_A = Inr n"
    "bij_betw (\<lambda>i. perm ! i) {..<n} {..<n}"
    "\<forall>i<n. getitem_int (Shuffle [1, 0] source_A) (int i) = getitem_int source_A (int (perm ! i))"
    by blast
  with mk show ?thesis by (intro conjI exI [of _ perm] exI [of _ n]) simp_all
qed


section \<open>The Slice view\<close>

lemma Slice_keys_never_return:
  "\<exists>e. fst (keys_it (Slice sl u)) = Inl e"
  by (cases "keys_it u") (auto simp: list_getitem_ndarray_def split: sum.splits)

lemma Slice_getitem_str_never_returns:
  "\<exists>e. fst (getitem_str (Slice sl u) key) = Inl e"
  by (cases "keys_it u") (auto simp: list_getitem_ndarray_def split: sum.splits)

text \<open>
  Claim C2. The slice \<open>[0:2]\<close> of the source \<open>{a, b}\<close> resolves to the positions
  \<open>[0, 1]\<close> and its access by position works; but its \<^verbatim>\<open>keys()\<close> raises
  \<^verbatim>\<open>TypeError\<close> where the upstream keys at those positions are \<open>[a, b]\<close>, and its
  lookup of the key \<open>a\<close>, which tests membership in \<^verbatim>\<open>self.keys()\<close>, raises
  \<^verbatim>\<open>TypeError\<close> too where the upstream returns the example: the upstream keys are a
  Python list and the resolved positions a numpy array. By the two lemmas above no Slice
  view ever returns from either call.
\<close>

theorem Slice_keys_raise_TypeError:
  "getitem_sel source_A (SelSlice (Some 0) (Some 2) None) = Inr (Slice [0, 1] source_A)
   \<and> fst (keys_it source_A) = Inr [''a'', ''b'']
   \<and> fst (keys_it (Slice [0, 1] source_A)) = Inl TypeError
   \<and> fst (getitem_str source_A ''a'') = Inr (VDict [(''value'', VInt 1), (EXAMPLE_ID, VStr ''a'')])
   \<and> fst (getitem_str (Slice [0, 1] source_A) ''a'') = Inl TypeError
   \<and> getitem_int (Slice [0, 1] source_A) 0 = Inr (VDict [(''value'', VInt 1), (EXAMPLE_ID, VStr ''a'')])"
proof -
  have "[0..<2] = [0, Suc 0]" by (simp add: upt_rec)
  then show ?thesis
    by (simp add: source_A_def SliceIterator_def slice_indices_def py_range_def
      list_getitem_ndarray_def Examples_keys_def Examples_getitem_str_def Examples_getitem_int_def
      Examples_copy_def py_index_def EXAMPLE_ID_def)
qed


section \<open>Isolation of the copies\<close>

lemma ref_within_mono: "ref_within n m x \<Longrightarrow> m \<le> m' \<Longrightarrow> ref_within n m' x"
  by (auto simp: ref_within_def split: ref.splits)

lemma refs_within_mono:
  "list_all (ref_within n m) xs \<Longrightarrow> m \<le> m' \<Longrightarrow> list_all (ref_within n m') xs"
  by (auto simp: list_all_iff intro: ref_within_mono)

lemma memo_fresh_mono: "memo_fresh n m memo \<Longrightarrow> m \<le> m' \<Longrightarrow> memo_fresh n m' memo"
  by (auto simp: memo_fresh_def list_all_iff)

lemma memo_fresh_lookup:
  "memo_fresh n m memo \<Longrightarrow> map_of memo a = Some y \<Longrightarrow> ref_within n m (RObj y)"
  by (auto simp: memo_fresh_def list_all_iff ref_within_def dest!: map_of_SomeD)

lemma fresh_closed_append:
  assumes "n \<le> length h" "fresh_closed n h"
    and "list_all (ref_within n (Suc (length h))) (refs_of ob)"
  shows "fresh_closed n (h @ [ob])"
  using assms
  by (auto simp: fresh_closed_def list_all_iff intro: ref_within_mono [where m = "length h"])

lemma fresh_closed_update:
  assumes "fresh_closed n h" "n \<le> i"
    and "list_all (ref_within n (length h)) (refs_of ob)"
  shows "fresh_closed n (h[i := ob])"
proof -
  have "set ((drop n h)[i - n := ob]) \<subseteq> insert ob (set (drop n h))"
    by (rule set_update_subset_insert)
  with assms show ?thesis
    by (auto simp: fresh_closed_def list_all_iff drop_update_swap)
qed

lemma copy_inv_alloc:
  assumes "copy_inv n memo h" "refs_of ob = []"
  shows "copy_inv n ((a, length h) # memo) (h @ [ob])"
  using assms
  by (auto simp: copy_inv_def memo_fresh_def list_all_iff intro!: fresh_closed_append)

lemma copy_inv_fill:
  assumes "copy_inv n memo h" "n \<le> i" "list_all (ref_within n (length h)) (refs_of ob)"
  shows "copy_inv n memo (h[i := ob])"
  using assms by (auto simp: copy_inv_def intro: fresh_closed_update)

lemma deepcopy_inv:
  "deepcopy d x memo h = Some (y, memo', h') \<Longrightarrow> copy_inv n memo h \<Longrightarrow>
     copy_inv n memo' h' \<and> length h \<le> length h' \<and> take n h' = take n h
     \<and> ref_within n (length h') y"
  and deepcopy_refs_inv:
  "deepcopy_refs d xs memo h = Some (ys, memo', h') \<Longrightarrow> copy_inv n memo h \<Longrightarrow>
     copy_inv n memo' h' \<and> length h \<le> length h' \<and> take n h' = take n h
     \<and> list_all (ref_within n (length h')) ys"
proof (induction d x memo h and d xs memo h arbitrary: y memo' h' and ys memo' h'
    rule: deepcopy_deepcopy_refs.induct)
  case (1 x memo h)
  then show ?case by simp
next
  case (2 d a memo h)
  from "2.prems"(1) have a: "a < length h" by (auto split: if_splits)
  from "2.prems"(2) have nh: "n \<le> length h" by (simp add: copy_inv_def)
  show ?case
  proof (cases "map_of memo a")
    case (Some z)
    with "2.prems" a have "y = RObj z" "memo' = memo" "h' = h" by auto
    with "2.prems"(2) Some show ?thesis
      by (auto simp: copy_inv_def dest: memo_fresh_lookup)
  next
    case None
    show ?thesis
    proof (cases "h ! a")
      case (OList xs)
      with "2.prems"(1) a None obtain ys h1 where
        r: "deepcopy_refs d xs ((a, length h) # memo) (h @ [OList []]) = Some (ys, memo', h1)"
        and y: "y = RObj (length h)" and h': "h' = h1[length h := OList ys]"
        by (auto split: option.splits)
      have "copy_inv n ((a, length h) # memo) (h @ [OList []])"
        using "2.prems"(2) by (intro copy_inv_alloc) (simp_all add: refs_of_def)
      from "2.IH"(1) [OF _ None OList r this] a
      have i1: "copy_inv n memo' h1" and l1: "Suc (length h) \<le> length h1"
        and t1: "take n h1 = take n h" and w1: "list_all (ref_within n (length h1)) ys"
        using nh by auto
      from i1 nh w1 have "copy_inv n memo' h'"
        unfolding h' by (intro copy_inv_fill) (simp_all add: refs_of_def)
      with l1 t1 nh show ?thesis
        by (simp add: y h' ref_within_def)
    next
      case (ODict kvs)
      with "2.prems"(1) a None obtain ys h1 where
        r: "deepcopy_refs d (map snd kvs) ((a, length h) # memo) (h @ [ODict []]) = Some (ys, memo', h1)"
        and y: "y = RObj (length h)" and h': "h' = h1[length h := ODict (zip (map fst kvs) ys)]"
        by (auto split: option.splits)
      have "copy_inv n ((a, length h) # memo) (h @ [ODict []])"
        using "2.prems"(2) by (intro copy_inv_alloc) (simp_all add: refs_of_def)
      from "2.IH"(2) [OF _ None ODict r this] a
      have i1: "copy_inv n memo' h1" and l1: "Suc (length h) \<le> length h1"
        and t1: "take n h1 = take n h" and w1: "list_all (ref_within n (length h1)) ys"
        using nh by auto
      have "set (map snd (zip (map fst kvs) ys)) \<subseteq> set ys"
        by (auto dest: set_zip_rightD)
      with w1 have "list_all (ref_within n (length h1)) (refs_of (ODict (zip (map fst kvs) ys)))"
        by (auto simp: refs_of_def list_all_iff)
      with i1 nh have "copy_inv n memo' h'"
        unfolding h' by (intro copy_inv_fill) simp_all
      with l1 t1 nh show ?thesis
        by (simp add: y h' ref_within_def)
    qed
  qed
next
  case (3 d memo h)
  then show ?case by (auto simp: ref_within_def)
next
  case (4 d i memo h)
  then show ?case by (auto simp: ref_within_def)
next
  case (5 d s memo h)
  then show ?case by (auto simp: ref_within_def)
next
  case (6 d memo h)
  then show ?case by simp
next
  case (7 d x xs memo h)
  from "7.prems"(1) obtain y1 m1 h1 ys1 where
    a: "deepcopy d x memo h = Some (y1, m1, h1)"
    and b: "deepcopy_refs d xs m1 h1 = Some (ys1, memo', h')" and ys: "ys = y1 # ys1"
    by (auto split: option.splits)
  from "7.IH"(1) [OF a "7.prems"(2)]
  have i1: "copy_inv n m1 h1" and l1: "length h \<le> length h1" and t1: "take n h1 = take n h"
    and w1: "ref_within n (length h1) y1" by auto
  from "7.IH"(2) [OF a refl refl b i1]
  have i2: "copy_inv n memo' h'" and l2: "length h1 \<le> length h'" and t2: "take n h' = take n h1"
    and w2: "list_all (ref_within n (length h')) ys1" by auto
  from i2 l1 l2 t1 t2 w1 w2 show ?case
    by (auto simp: ys intro: ref_within_mono)
qed


lemma shift_ref_below: "ref_below n x \<Longrightarrow> shift_ref n k x = x"
  by (auto simp: ref_below_def shift_ref_def shift_addr_def split: ref.splits)

lemma shift_refs_below: "list_all (ref_below n) xs \<Longrightarrow> map (shift_ref n k) xs = xs"
  by (induction xs) (auto simp: shift_ref_below)

lemma map_of_shift_memo:
  "map_of (shift_memo n k memo) a = map_option (shift_addr n k) (map_of memo a)"
  by (induction memo) (auto simp: shift_memo_def)

lemma shifted_old_nth: "shifted n k h1 h2 \<Longrightarrow> a < n \<Longrightarrow> h2 ! a = h1 ! a"
  by (metis nth_take shifted_def)

lemma shifted_fresh_nth:
  assumes "shifted n k h1 h2" "n \<le> a" "a < length h1"
  shows "h2 ! (a + k) = shift_obj n k (h1 ! a)"
proof -
  from assms have eq: "drop (n + k) h2 = map (shift_obj n k) (drop n h1)"
    and len: "n + k \<le> length h2" by (simp_all add: shifted_def)
  from assms(2) have "a + k = (n + k) + (a - n)" by simp
  then have "h2 ! (a + k) = h2 ! ((n + k) + (a - n))" by (simp only:)
  also from len have "\<dots> = drop (n + k) h2 ! (a - n)" by (simp only: nth_drop)
  also have "\<dots> = map (shift_obj n k) (drop n h1) ! (a - n)" by (simp only: eq)
  also from assms have "\<dots> = shift_obj n k (h1 ! a)" by simp
  finally show ?thesis .
qed

lemma shifted_alloc:
  assumes "shifted n k h1 h2" "shift_obj n k ob = ob"
  shows "shifted n k (h1 @ [ob]) (h2 @ [ob])"
  using assms by (auto simp: shifted_def)

lemma shifted_fill:
  assumes "shifted n k h1 h2" "n \<le> i"
  shows "shifted n k (h1[i := ob]) (h2[i + k := shift_obj n k ob])"
  using assms by (auto simp: shifted_def drop_update_swap map_update)

lemma old_closed_nth:
  "old_closed n h \<Longrightarrow> a < n \<Longrightarrow> a < length h \<Longrightarrow> list_all (ref_below n) (refs_of (h ! a))"
  by (auto simp: old_closed_def list_all_length)

lemma old_closed_take: "old_closed n h \<Longrightarrow> take n h' = take n h \<Longrightarrow> old_closed n h'"
  by (simp add: old_closed_def)

lemma deepcopy_refs_length:
  "deepcopy_refs d xs memo h = Some (ys, memo', h') \<Longrightarrow> length ys = length xs"
  by (induction xs arbitrary: memo h ys memo' h') (auto split: option.splits)

lemma deepcopy_shifted:
  "deepcopy d x memo h1 = Some (y, memo', h1') \<Longrightarrow> copy_inv n memo h1 \<Longrightarrow>
   old_closed n h1 \<Longrightarrow> ref_below n x \<Longrightarrow> shifted n k h1 h2 \<Longrightarrow>
     \<exists>h2'. deepcopy d x (shift_memo n k memo) h2 =
             Some (shift_ref n k y, shift_memo n k memo', h2')
           \<and> shifted n k h1' h2'"
  and deepcopy_refs_shifted:
  "deepcopy_refs d xs memo h1 = Some (ys, memo', h1') \<Longrightarrow> copy_inv n memo h1 \<Longrightarrow>
   old_closed n h1 \<Longrightarrow> list_all (ref_below n) xs \<Longrightarrow> shifted n k h1 h2 \<Longrightarrow>
     \<exists>h2'. deepcopy_refs d xs (shift_memo n k memo) h2 =
             Some (map (shift_ref n k) ys, shift_memo n k memo', h2')
           \<and> shifted n k h1' h2'"
proof (induction d x memo h1 and d xs memo h1 arbitrary: y memo' h1' h2 and ys memo' h1' h2
    rule: deepcopy_deepcopy_refs.induct)
  case (1 x memo h)
  then show ?case by simp
next
  case (2 d a memo h)
  note inv = "2.prems"(2) and oc = "2.prems"(3) and sh = "2.prems"(5)
  from "2.prems"(4) have an: "a < n" by (simp add: ref_below_def)
  from inv have nh: "n \<le> length h" by (simp add: copy_inv_def)
  from sh have l2: "length h2 = length h + k" by (simp add: shifted_def)
  from an nh have a1: "a < length h" by simp
  with l2 have a2: "\<not> length h2 \<le> a" by simp
  from sh an have cell: "h2 ! a = h ! a" by (rule shifted_old_nth)
  from oc an a1 have kids: "list_all (ref_below n) (refs_of (h ! a))" by (rule old_closed_nth)
  from nh l2 have top: "length h2 = shift_addr n k (length h)" by (simp add: shift_addr_def)
  show ?case
  proof (cases "map_of memo a")
    case (Some z)
    with "2.prems"(1) a1 have "y = RObj z" "memo' = memo" "h1' = h" by auto
    with Some a2 sh show ?thesis
      by (simp add: map_of_shift_memo shift_ref_def)
  next
    case None
    show ?thesis
    proof (cases "h ! a")
      case (OList xs)
      with "2.prems"(1) a1 None obtain ys h1 where
        r: "deepcopy_refs d xs ((a, length h) # memo) (h @ [OList []]) = Some (ys, memo', h1)"
        and y: "y = RObj (length h)" and h': "h1' = h1[length h := OList ys]"
        by (auto split: option.splits)
      have i: "copy_inv n ((a, length h) # memo) (h @ [OList []])"
        using inv by (intro copy_inv_alloc) (simp_all add: refs_of_def)
      have o: "old_closed n (h @ [OList []])"
        using oc nh by (simp add: old_closed_def)
      from kids OList have xs: "list_all (ref_below n) xs" by (simp add: refs_of_def)
      have s: "shifted n k (h @ [OList []]) (h2 @ [OList []])"
        using sh by (intro shifted_alloc) (simp_all add: shift_obj_def)
      from "2.IH"(1) [OF _ None OList r i o xs s] a1 obtain h2a where
        r2: "deepcopy_refs d xs (shift_memo n k ((a, length h) # memo)) (h2 @ [OList []]) =
               Some (map (shift_ref n k) ys, shift_memo n k memo', h2a)"
        and s2: "shifted n k h1 h2a" by auto
      from r2 top have r2': "deepcopy_refs d xs ((a, length h2) # shift_memo n k memo) (h2 @ [OList []]) =
               Some (map (shift_ref n k) ys, shift_memo n k memo', h2a)"
        by (simp add: shift_memo_def)
      from s2 nh have "shifted n k (h1[length h := OList ys])
          (h2a[length h + k := shift_obj n k (OList ys)])"
        by (intro shifted_fill)
      with l2 have "shifted n k h1' (h2a[length h2 := OList (map (shift_ref n k) ys)])"
        by (simp add: h' shift_obj_def)
      with r2' a2 None OList cell top show ?thesis
        by (simp add: map_of_shift_memo y shift_ref_def)
    next
      case (ODict kvs)
      with "2.prems"(1) a1 None obtain ys h1 where
        r: "deepcopy_refs d (map snd kvs) ((a, length h) # memo) (h @ [ODict []]) = Some (ys, memo', h1)"
        and y: "y = RObj (length h)" and h': "h1' = h1[length h := ODict (zip (map fst kvs) ys)]"
        by (auto split: option.splits)
      from r have lys: "length ys = length kvs"
        by (auto dest: deepcopy_refs_length)
      have i: "copy_inv n ((a, length h) # memo) (h @ [ODict []])"
        using inv by (intro copy_inv_alloc) (simp_all add: refs_of_def)
      have o: "old_closed n (h @ [ODict []])"
        using oc nh by (simp add: old_closed_def)
      from kids ODict have xs: "list_all (ref_below n) (map snd kvs)" by (simp add: refs_of_def)
      have s: "shifted n k (h @ [ODict []]) (h2 @ [ODict []])"
        using sh by (intro shifted_alloc) (simp_all add: shift_obj_def)
      from "2.IH"(2) [OF _ None ODict r i o xs s] a1 obtain h2a where
        r2: "deepcopy_refs d (map snd kvs) (shift_memo n k ((a, length h) # memo)) (h2 @ [ODict []]) =
               Some (map (shift_ref n k) ys, shift_memo n k memo', h2a)"
        and s2: "shifted n k h1 h2a" by auto
      from r2 top have r2': "deepcopy_refs d (map snd kvs) ((a, length h2) # shift_memo n k memo) (h2 @ [ODict []]) =
               Some (map (shift_ref n k) ys, shift_memo n k memo', h2a)"
        by (simp add: shift_memo_def)
      from s2 nh have "shifted n k (h1[length h := ODict (zip (map fst kvs) ys)])
          (h2a[length h + k := shift_obj n k (ODict (zip (map fst kvs) ys))])"
        by (intro shifted_fill)
      moreover from lys have "shift_obj n k (ODict (zip (map fst kvs) ys)) =
          ODict (zip (map fst kvs) (map (shift_ref n k) ys))"
        by (simp add: shift_obj_def)
      ultimately have "shifted n k h1' (h2a[length h2 := ODict (zip (map fst kvs) (map (shift_ref n k) ys))])"
        using l2 by (simp add: h')
      with r2' a2 None ODict cell top show ?thesis
        by (simp add: map_of_shift_memo y shift_ref_def)
    qed
  qed
next
  case (3 d memo h)
  then show ?case by (auto simp: shift_ref_def)
next
  case (4 d i memo h)
  then show ?case by (auto simp: shift_ref_def)
next
  case (5 d s memo h)
  then show ?case by (auto simp: shift_ref_def)
next
  case (6 d memo h)
  then show ?case by auto
next
  case (7 d x xs memo h)
  from "7.prems"(1) obtain y1 m1 h1 ys1 where
    a: "deepcopy d x memo h = Some (y1, m1, h1)"
    and b: "deepcopy_refs d xs m1 h1 = Some (ys1, memo', h1')" and ys: "ys = y1 # ys1"
    by (auto split: option.splits)
  from "7.prems"(4) have x: "ref_below n x" and xs: "list_all (ref_below n) xs" by simp_all
  from "7.IH"(1) [OF a "7.prems"(2,3) x "7.prems"(5)] obtain h2a where
    a2: "deepcopy d x (shift_memo n k memo) h2 = Some (shift_ref n k y1, shift_memo n k m1, h2a)"
    and s2: "shifted n k h1 h2a" by auto
  from deepcopy_inv [OF a "7.prems"(2)] have i1: "copy_inv n m1 h1" and t1: "take n h1 = take n h"
    by simp_all
  from "7.prems"(3) t1 have o1: "old_closed n h1" by (rule old_closed_take)
  from "7.IH"(2) [OF a refl refl b i1 o1 xs s2] obtain h2b where
    b2: "deepcopy_refs d xs (shift_memo n k m1) h2a =
           Some (map (shift_ref n k) ys1, shift_memo n k memo', h2b)"
    and s3: "shifted n k h1' h2b" by auto
  from a2 b2 s3 show ?case by (simp add: ys)
qed


lemma value_of_shifted:
  "shifted n k h1 h2 \<Longrightarrow> old_closed n h1 \<Longrightarrow>
     value_of d h2 (shift_ref n k x) = value_of d h1 x"
proof (induction d arbitrary: x)
  case 0
  then show ?case by simp
next
  case (Suc d)
  note sh = Suc.prems(1) and oc = Suc.prems(2)
  from sh have nh: "n \<le> length h1" and l2: "length h2 = length h1 + k"
    by (simp_all add: shifted_def)
  have IH: "value_of d h2 (shift_ref n k c) = value_of d h1 c" for c
    by (rule Suc.IH [OF sh oc])
  show ?case
  proof (cases x)
    case (RObj a)
    consider (old) "a < n" | (fresh) "n \<le> a" "a < length h1" | (out) "length h1 \<le> a"
      by linarith
    then show ?thesis
    proof cases
      case old
      with nh have a1: "a < length h1" by simp
      from sh old have cell: "h2 ! a = h1 ! a" by (rule shifted_old_nth)
      from oc old a1 have kids: "list_all (ref_below n) (refs_of (h1 ! a))" by (rule old_closed_nth)
      have "map (value_of d h2) (refs_of (h1 ! a)) = map (value_of d h1) (refs_of (h1 ! a))"
      proof (rule map_cong [OF refl])
        fix c assume "c \<in> set (refs_of (h1 ! a))"
        with kids have "ref_below n c" by (simp add: list_all_iff)
        then have "shift_ref n k c = c" by (rule shift_ref_below)
        with IH [of c] show "value_of d h2 c = value_of d h1 c" by simp
      qed
      with old a1 l2 cell show ?thesis
        by (simp add: RObj shift_ref_def shift_addr_def refs_of_def del: map_eq_conv
            split: obj.splits)
    next
      case fresh
      from sh fresh have cell: "h2 ! (a + k) = shift_obj n k (h1 ! a)" by (rule shifted_fresh_nth)
      have c: "value_of d h2 \<circ> shift_ref n k = value_of d h1"
        by (rule ext) (simp add: IH)
      from fresh have sx: "shift_ref n k (RObj a) = RObj (a + k)"
        by (simp add: shift_ref_def shift_addr_def)
      from fresh l2 cell show ?thesis
        by (simp add: RObj sx shift_obj_def o_assoc c split: obj.splits)
    next
      case out
      with nh l2 show ?thesis
        by (simp add: RObj shift_ref_def shift_addr_def)
    qed
  qed (simp_all add: shift_ref_def)
qed

lemma dict_setitem_shift:
  "zip (map fst (dict_setitem key (RStr s) kvs))
       (map (shift_ref n k) (map snd (dict_setitem key (RStr s) kvs))) =
   dict_setitem key (RStr s) (zip (map fst kvs) (map (shift_ref n k) (map snd kvs)))"
  by (induction kvs) (auto simp: shift_ref_def)

lemma heap_closed_old: "heap_closed h \<Longrightarrow> old_closed (length h) h"
  by (simp add: heap_closed_def old_closed_def)

lemma copy_inv_start: "copy_inv (length h) [] h"
  by (simp add: copy_inv_def memo_fresh_def fresh_closed_def)


lemma shifted_start:
  assumes "take (length h) hm = h"
  shows "shifted (length h) (length hm - length h) h hm"
proof -
  from assms have "min (length h) (length hm) = length h"
    by (metis length_take min.commute)
  then have le: "length h \<le> length hm" by simp
  with assms show ?thesis by (simp add: shifted_def)
qed


lemma refs_dict_setitem:
  "set (map snd (dict_setitem key v kvs)) \<subseteq> insert v (set (map snd kvs))"
  by (induction kvs) auto

lemma setitem_heap_Inr:
  assumes "setitem_heap x key v h = (Inr r, h')"
  shows "\<exists>a kvs. x = RObj a \<and> r = RObj a \<and> a < length h \<and> h ! a = ODict kvs
           \<and> h' = h[a := ODict (dict_setitem key v kvs)]"
  using assms by (cases x) (auto split: if_splits obj.splits)

lemma setitem_heap_frame:
  assumes "ref_within n (length h) x"
  shows "take n (snd (setitem_heap x key v h)) = take n h"
  using assms by (cases x) (auto simp: ref_within_def split: obj.splits)

text \<open>
  Claim C4. Let a source be stored in a closed store \<open>h\<close>, and let the access for a key
  return the reference \<open>r1\<close> in the store \<open>h1\<close> (iteration makes this same access for
  each key in turn). Then the stored objects are as before; \<open>r1\<close> is a new object, and
  the new objects refer only to new objects, so nothing reachable from \<open>r1\<close> is stored
  state; assigning any field of the returned mapping leaves the stored objects as they
  were; and in every store that still holds the stored objects, whatever became of the
  new ones, a further access for the key succeeds, leaves the stored objects alone and
  returns a mapping that reads, to every depth, as the first one did when it was returned.
\<close>

theorem Examples_getitem_isolated:
  assumes src: "source_stored exs h"
    and acc: "Examples_getitem_heap limit exs key h = (Inr r1, h1)"
  shows "take (length h) h1 = h
    \<and> (\<exists>a. r1 = RObj a \<and> length h \<le> a \<and> a < length h1)
    \<and> fresh_closed (length h) h1
    \<and> (\<forall>field v. take (length h) (snd (setitem_heap r1 field v h1)) = h)
    \<and> (\<forall>hm. take (length h) hm = h \<longrightarrow>
          (\<exists>r2 h2. Examples_getitem_heap limit exs key hm = (Inr r2, h2)
             \<and> take (length h) h2 = h
             \<and> (\<forall>d. value_of d h2 r2 = value_of d h1 r1)))"
proof -
  let ?n = "length h"
  from acc have mem: "key \<in> set (map fst exs)"
    by (auto simp: Examples_getitem_heap_def split: if_splits)
  with acc obtain body ex memo h1a where
    body: "map_of exs key = Some body"
    and dc: "deepcopy limit body [] h = Some (ex, memo, h1a)"
    and st: "setitem_heap ex EXAMPLE_ID (RStr key) h1a = (Inr r1, h1)"
    by (auto simp: Examples_getitem_heap_def split: option.splits)
  from setitem_heap_Inr [OF st] obtain a kvs where
    ex: "ex = RObj a" and r1: "r1 = RObj a" and a1: "a < length h1a"
    and cell: "h1a ! a = ODict kvs"
    and h1: "h1 = h1a[a := ODict (dict_setitem EXAMPLE_ID (RStr key) kvs)]"
    by blast
  from deepcopy_inv [OF dc copy_inv_start]
  have inv: "copy_inv ?n memo h1a" and len: "?n \<le> length h1a"
    and fr: "take ?n h1a = h" and w: "ref_within ?n (length h1a) ex"
    by simp_all
  from w ex have an: "?n \<le> a" by (simp add: ref_within_def)
  from fr an have A: "take ?n h1 = h" by (simp add: h1)
  from an a1 have B: "\<exists>a. r1 = RObj a \<and> ?n \<le> a \<and> a < length h1" by (simp add: r1 h1)
  have C: "fresh_closed ?n h1"
  proof -
    from inv have fc: "fresh_closed ?n h1a" by (simp add: copy_inv_def)
    from an a1 have "drop ?n h1a ! (a - ?n) \<in> set (drop ?n h1a)"
      by (intro nth_mem) simp
    moreover from an a1 have "drop ?n h1a ! (a - ?n) = h1a ! a" by simp
    ultimately have "h1a ! a \<in> set (drop ?n h1a)" by simp
    with fc cell have "list_all (ref_within ?n (length h1a)) (map snd kvs)"
      by (auto simp: fresh_closed_def list_all_iff refs_of_def)
    then have old: "\<forall>x \<in> set (map snd kvs). ref_within ?n (length h1a) x"
      by (simp add: list_all_iff)
    have "ref_within ?n (length h1a) x"
      if "x \<in> set (map snd (dict_setitem EXAMPLE_ID (RStr key) kvs))" for x
    proof -
      from that refs_dict_setitem [of EXAMPLE_ID "RStr key" kvs]
      have "x = RStr key \<or> x \<in> set (map snd kvs)" by blast
      with old show ?thesis by (auto simp: ref_within_def)
    qed
    then have "list_all (ref_within ?n (length h1a))
            (refs_of (ODict (dict_setitem EXAMPLE_ID (RStr key) kvs)))"
      by (simp add: list_all_iff refs_of_def)
    with fc an show ?thesis unfolding h1 by (intro fresh_closed_update) simp_all
  qed
  have D: "take ?n (snd (setitem_heap r1 field v h1)) = h" for field v
  proof -
    from an a1 have "ref_within ?n (length h1) r1" by (simp add: r1 h1 ref_within_def)
    from setitem_heap_frame [OF this] A show ?thesis by simp
  qed
  have E: "\<exists>r2 h2. Examples_getitem_heap limit exs key hm = (Inr r2, h2)
             \<and> take ?n h2 = h \<and> (\<forall>d. value_of d h2 r2 = value_of d h1 r1)"
    if hm: "take ?n hm = h" for hm
  proof -
    let ?k = "length hm - ?n"
    from src have hc: "old_closed ?n h" by (simp add: source_stored_def heap_closed_old)
    from src body have bb: "ref_below ?n body"
      by (auto simp: source_stored_def list_all_iff dest!: map_of_SomeD)
    from deepcopy_shifted [OF dc copy_inv_start hc bb shifted_start [OF hm]]
    obtain h2a where
      dc2: "deepcopy limit body [] hm = Some (shift_ref ?n ?k ex, shift_memo ?n ?k memo, h2a)"
      and sh: "shifted ?n ?k h1a h2a"
      by (auto simp: shift_memo_def)
    from an have sex: "shift_ref ?n ?k ex = RObj (a + ?k)"
      by (simp add: ex shift_ref_def shift_addr_def)
    from shifted_fresh_nth [OF sh an a1] cell
    have cell2: "h2a ! (a + ?k) = ODict (zip (map fst kvs) (map (shift_ref ?n ?k) (map snd kvs)))"
      by (simp add: shift_obj_def)
    from sh a1 have a2: "a + ?k < length h2a" by (simp add: shifted_def)
    let ?h2 = "h2a[a + ?k := shift_obj ?n ?k (ODict (dict_setitem EXAMPLE_ID (RStr key) kvs))]"
    have so: "shift_obj ?n ?k (ODict (dict_setitem EXAMPLE_ID (RStr key) kvs)) =
        ODict (dict_setitem EXAMPLE_ID (RStr key)
                 (zip (map fst kvs) (map (shift_ref ?n ?k) (map snd kvs))))"
      by (simp only: shift_obj_def obj.case dict_setitem_shift)
    from mem body dc2 sex cell2 a2 so
    have acc2: "Examples_getitem_heap limit exs key hm = (Inr (RObj (a + ?k)), ?h2)"
      by (simp add: Examples_getitem_heap_def)
    from shifted_fill [OF sh an] have sh2: "shifted ?n ?k h1 ?h2" by (simp add: h1)
    from hc A have oc1: "old_closed ?n h1" by (intro old_closed_take [OF hc]) simp
    from an have sr: "shift_ref ?n ?k r1 = RObj (a + ?k)"
      by (simp add: r1 shift_ref_def shift_addr_def)
    have "value_of d ?h2 (RObj (a + ?k)) = value_of d h1 r1" for d
      using value_of_shifted [OF sh2 oc1, of d r1] sr by simp
    moreover from sh2 A have "take ?n ?h2 = h" by (simp add: shifted_def)
    ultimately show ?thesis using acc2 by blast
  qed
  from A B C D E show ?thesis by blast
qed


lemma first_A_eq:
  "Examples_getitem_heap 10 examples_A ''a'' store_A = (Inr (RObj 2), first_A)"
  unfolding first_A_def by code_simp

theorem Examples_getitem_isolated_witness:
  "source_stored examples_A store_A
   \<and> Examples_getitem_heap 10 examples_A ''a'' store_A = (Inr (RObj 2), first_A)
   \<and> value_of 4 mutated_A (RObj 2) =
        Some (VDict [(''value'', VInt 99), (''tags'', VList [VInt 7]), (EXAMPLE_ID, VStr ''a'')])
   \<and> take 2 mutated_A = store_A
   \<and> (\<exists>r2 h2. Examples_getitem_heap 10 examples_A ''a'' mutated_A = (Inr r2, h2)
         \<and> take 2 h2 = store_A
         \<and> value_of 4 h2 r2 = value_of 4 first_A (RObj 2))
   \<and> value_of 4 first_A (RObj 2) =
        Some (VDict [(''value'', VInt 1), (''tags'', VList [VInt 7]), (EXAMPLE_ID, VStr ''a'')])"
proof -
  have src: "source_stored examples_A store_A" by code_simp
  have len: "length store_A = 2" by (simp add: store_A_def)
  note T = Examples_getitem_isolated [OF src first_A_eq, unfolded len]
  from T have frame: "take 2 mutated_A = store_A"
    unfolding mutated_A_def by blast
  from T frame have again: "\<exists>r2 h2. Examples_getitem_heap 10 examples_A ''a'' mutated_A = (Inr r2, h2)
         \<and> take 2 h2 = store_A
         \<and> value_of 4 h2 r2 = value_of 4 first_A (RObj 2)"
    by blast
  have v1: "value_of 4 first_A (RObj 2) =
        Some (VDict [(''value'', VInt 1), (''tags'', VList [VInt 7]), (EXAMPLE_ID, VStr ''a'')])"
    unfolding first_A_def by code_simp
  have v2: "value_of 4 mutated_A (RObj 2) =
        Some (VDict [(''value'', VInt 99), (''tags'', VList [VInt 7]), (EXAMPLE_ID, VStr ''a'')])"
    unfolding mutated_A_def first_A_def by code_simp
  from src first_A_eq frame again v1 v2 show ?thesis by blast
qed

end
